theory Spec2Isabelle
  imports Complex_Main
begin

section \<open>Python strings, slices and the sentence-boundary pattern\<close>

text \<open>
  The backend is Python. A Python \<^verbatim>\<open>str\<close> is a sequence of Unicode code points, and
  \<^verbatim>\<open>len\<close>, slicing and \<^verbatim>\<open>strip\<close> count code points, so a text is modelled as the
  list of its code points. String literals of the source are written with \<open>cp\<close>.
\<close>

type_synonym py_str = "nat list"

definition cp :: "string \<Rightarrow> py_str" where
  "cp s = map of_char s"

text \<open>
  \<^verbatim>\<open>str.isspace\<close> for one code point; the same set is what \<^verbatim>\<open>\s\<close> matches in a
  \<^verbatim>\<open>str\<close> pattern and what \<^verbatim>\<open>str.strip()\<close> removes: TAB..CR, FS..US, space, NEL,
  NBSP, U+1680, U+2000..U+200A, U+2028, U+2029, U+202F, U+205F, U+3000.
\<close>

definition is_space :: "nat \<Rightarrow> bool" where
  "is_space c \<longleftrightarrow>
     (9 \<le> c \<and> c \<le> 13) \<or> (28 \<le> c \<and> c \<le> 32) \<or> c = 133 \<or> c = 160 \<or> c = 5760 \<or>
     (8192 \<le> c \<and> c \<le> 8202) \<or> c = 8232 \<or> c = 8233 \<or> c = 8239 \<or> c = 8287 \<or> c = 12288"

text \<open>The character classes \<^verbatim>\<open>[.!?]\<close> and \<^verbatim>\<open>[A-Z]\<close> of the pattern.\<close>

definition is_terminal :: "nat \<Rightarrow> bool" where
  "is_terminal c \<longleftrightarrow> c = 46 \<or> c = 33 \<or> c = 63"

definition is_upper :: "nat \<Rightarrow> bool" where
  "is_upper c \<longleftrightarrow> 65 \<le> c \<and> c \<le> 90"

text \<open>\<^verbatim>\<open>s.strip()\<close>: leading and trailing whitespace removed.\<close>

definition py_strip :: "py_str \<Rightarrow> py_str" where
  "py_strip s = rev (dropWhile is_space (rev (dropWhile is_space s)))"

text \<open>
  \<^verbatim>\<open>s[i:j]\<close> with Python's index adjustment: a negative index counts from the end, and
  both indices are clipped to \<open>0..len(s)\<close>; an empty range gives the empty string.
\<close>

definition py_index :: "nat \<Rightarrow> int \<Rightarrow> nat" where
  "py_index n i = (if i < 0 then nat (max (i + int n) 0) else min (nat i) n)"

definition py_slice :: "'a list \<Rightarrow> int \<Rightarrow> int \<Rightarrow> 'a list" where
  "py_slice s i j =
     (let lo = py_index (length s) i; hi = py_index (length s) j
      in take (hi - lo) (drop lo s))"

text \<open>
  One attempt of \<^verbatim>\<open>[.!?]\s+(?=[A-Z])\<close> at the head of a text: a terminal punctuation
  mark, then the whole run of whitespace after it (the greedy \<^verbatim>\<open>\s+\<close>; giving back
  whitespace never helps, since the look-ahead would then see whitespace), then a capital
  letter that is not consumed. The result is the length of the match.
\<close>

fun match_here :: "py_str \<Rightarrow> nat option" where
  "match_here [] = None"
| "match_here (c # rest) =
     (if is_terminal c
      then (let ws = takeWhile is_space rest; after = dropWhile is_space rest
            in (case after of
                  [] \<Rightarrow> None
                | a # _ \<Rightarrow> if ws \<noteq> [] \<and> is_upper a then Some (Suc (length ws)) else None))
      else None)"

lemma match_here_pos: "match_here s = Some l \<Longrightarrow> 0 < l \<and> l \<le> length s"
proof (cases s)
  case Nil
  assume "match_here s = Some l"
  with Nil show ?thesis by simp
next
  case (Cons c rest)
  assume m: "match_here s = Some l"
  have "length (takeWhile is_space rest) \<le> length rest"
    by (rule length_takeWhile_le)
  with m Cons show ?thesis
    by (auto simp: Let_def split: if_splits list.splits)
qed

text \<open>
  \<^verbatim>\<open>[m.end() for m in re.finditer(pattern, s)]\<close>: the scan goes left to right from
  offset \<open>pos\<close>; after a match it resumes at the end of that match, otherwise one code
  point further.
\<close>

function finditer_ends :: "nat \<Rightarrow> py_str \<Rightarrow> nat list" where
  "finditer_ends pos [] = []"
| "finditer_ends pos (c # cs) =
     (case match_here (c # cs) of
        Some l \<Rightarrow> (pos + l) # finditer_ends (pos + l) (drop l (c # cs))
      | None \<Rightarrow> finditer_ends (Suc pos) cs)"
  by pat_completeness auto
termination
  by (relation "measure (\<lambda>(pos, s). length s)")
     (auto dest!: match_here_pos simp del: match_here.simps)

section \<open>text\_chunker.py\<close>

text \<open>The dictionary appended for each chunk.\<close>

record chunk =
  chunk_id :: py_str
  chunk_text :: py_str
  page_number :: int
  start_pos :: int
  end_pos :: int
  source :: py_str

text \<open>A page as produced by the PDF loader: \<^verbatim>\<open>{"page_number": .., "text": ..}\<close>.\<close>

record page =
  page_num :: int
  page_text :: py_str

text \<open>\<^verbatim>\<open>str(n)\<close> for an integer, as used by the f-strings.\<close>

fun digits :: "nat \<Rightarrow> py_str" where
  "digits n = (if n < 10 then [48 + n] else digits (n div 10) @ [48 + n mod 10])"

declare digits.simps [simp del]

definition py_str_of_int :: "int \<Rightarrow> py_str" where
  "py_str_of_int i = (if i < 0 then 45 # digits (nat (- i)) else digits (nat i))"

text \<open>
  The sentence-boundary refinement inside the loop body. Given the raw window
  \<open>[start, start + chunk_size)\<close> it returns the final \<open>end\<close> and chunk text:
  \<^verbatim>\<open>
  if end < text_length:
      matches = list(re.finditer(pattern, chunk_text))
      if matches:
          sentence_end = matches[-1].end()
          if sentence_end > len(chunk_text) - 150:
              end = start + sentence_end
              chunk_text = page_text[start:end]
  \<close>
\<close>

definition snap_end :: "py_str \<Rightarrow> int \<Rightarrow> int \<Rightarrow> int \<times> py_str" where
  "snap_end text start chunk_size =
     (let end = start + chunk_size;
          ctext = py_slice text start end
      in if end < int (length text)
         then (case finditer_ends 0 ctext of
                 [] \<Rightarrow> (end, ctext)
               | m # ms \<Rightarrow>
                   (let sentence_end = int (last (m # ms))
                    in if sentence_end > int (length ctext) - 150
                       then (start + sentence_end, py_slice text start (start + sentence_end))
                       else (end, ctext)))
         else (end, ctext))"

text \<open>The dictionary built by \<^verbatim>\<open>chunks.append({...})\<close>.\<close>

definition make_chunk :: "nat \<Rightarrow> int \<Rightarrow> int \<Rightarrow> int \<Rightarrow> py_str \<Rightarrow> chunk" where
  "make_chunk cid pnum start end ctext =
     \<lparr> chunk_id = cp ''chunk_'' @ digits cid,
       chunk_text = cp ''search_document: '' @ py_strip ctext,
       page_number = pnum,
       start_pos = start,
       end_pos = end,
       source = cp ''Page '' @ py_str_of_int pnum \<rparr>"

text \<open>
  The \<^verbatim>\<open>while start < text_length\<close> loop for one page. The loop has no bound in the
  source, so it is a partial function: \<open>None\<close> means that the loop never exits. The
  state is \<open>start\<close>, the running \<open>chunk_id\<close> and the list \<open>chunks\<close>; the result is the
  state at loop exit.
  \<^verbatim>\<open>
  while start < text_length:
      end = start + chunk_size
      chunk_text = page_text[start:end]
      ... (snap_end) ...
      chunks.append({...})
      chunk_id += 1
      start = end - overlap
      # Prevent infinite loop
      if start >= text_length:
          break
  \<close>
\<close>

partial_function (option) page_loop ::
  "int \<Rightarrow> int \<Rightarrow> int \<Rightarrow> py_str \<Rightarrow> int \<Rightarrow> nat \<Rightarrow> chunk list \<Rightarrow> (nat \<times> chunk list) option" where
  "page_loop chunk_size overlap pnum text start cid chunks =
     (if start < int (length text)
      then (if fst (snap_end text start chunk_size) - overlap \<ge> int (length text)
            then Some (Suc cid,
                       chunks @ [make_chunk cid pnum start (fst (snap_end text start chunk_size))
                                   (snd (snap_end text start chunk_size))])
            else page_loop chunk_size overlap pnum text
                   (fst (snap_end text start chunk_size) - overlap) (Suc cid)
                   (chunks @ [make_chunk cid pnum start (fst (snap_end text start chunk_size))
                                (snd (snap_end text start chunk_size))]))
      else Some (cid, chunks))"

declare page_loop.simps [code]

text \<open>
  The \<^verbatim>\<open>for page_data in pages_data\<close> loop: each page starts at \<open>start = 0\<close> and goes
  through the page loop; \<open>chunk_id\<close> and \<open>chunks\<close> are carried across pages.
\<close>

fun pages_loop ::
  "int \<Rightarrow> int \<Rightarrow> page list \<Rightarrow> nat \<Rightarrow> chunk list \<Rightarrow> (nat \<times> chunk list) option" where
  "pages_loop chunk_size overlap [] cid chunks = Some (cid, chunks)"
| "pages_loop chunk_size overlap (p # ps) cid chunks =
     (case page_loop chunk_size overlap (page_num p) (page_text p) 0 cid chunks of
        None \<Rightarrow> None
      | Some (cid', chunks') \<Rightarrow> pages_loop chunk_size overlap ps cid' chunks')"

definition chunk_pages_with_metadata :: "page list \<Rightarrow> int \<Rightarrow> int \<Rightarrow> chunk list option" where
  "chunk_pages_with_metadata pages_data chunk_size overlap =
     map_option snd (pages_loop chunk_size overlap pages_data 0 [])"

section \<open>pdf\_loader.py\<close>

text \<open>
  \<^verbatim>\<open>load_pdf_with_pages\<close>. The opened document is the list of the texts that
  \<^verbatim>\<open>page.get_text()\<close> returns, in page order; \<open>n\<close> is the loop variable
  \<^verbatim>\<open>page_num\<close> (0-based).
  \<^verbatim>\<open>
  for page_num in range(len(doc)):
      text = doc[page_num].get_text()
      if text.strip():  # Only include pages with text
          pages_data.append({"page_number": page_num + 1, "text": text.strip()})
  \<close>
\<close>

fun load_pages_from :: "nat \<Rightarrow> py_str list \<Rightarrow> page list" where
  "load_pages_from n [] = []"
| "load_pages_from n (t # ts) =
     (if py_strip t \<noteq> []
      then \<lparr> page_num = int n + 1, page_text = py_strip t \<rparr> # load_pages_from (Suc n) ts
      else load_pages_from (Suc n) ts)"

definition load_pdf_with_pages :: "py_str list \<Rightarrow> page list" where
  "load_pdf_with_pages doc = load_pages_from 0 doc"

section \<open>embeddings.py\<close>

text \<open>
  What \<^verbatim>\<open>requests.post(OLLAMA_URL, json=payload, timeout=120)\<close> and the following
  \<^verbatim>\<open>response.json()\<close> can do: raise a connection error, raise a timeout, raise
  another exception (with its \<^verbatim>\<open>str(e)\<close>), or return a response with a status code,
  a body text and the decoded JSON. The decoded JSON either fails to decode (an
  exception with its message) or is a dictionary, of which the code reads the value under
  \<^verbatim>\<open>"embedding"\<close> if the key is present, and prints the whole (its \<^verbatim>\<open>repr\<close>).
\<close>

datatype json_body =
    JsonError py_str
  | JsonData "real list option" py_str

datatype http_outcome =
    ConnectionError
  | Timeout
  | OtherError py_str
  | Response nat py_str json_body

record payload =
  model :: py_str
  prompt :: py_str

datatype py_exception = Exception py_str

definition EMBED_MODEL :: py_str where
  "EMBED_MODEL = cp ''nomic-embed-text''"

text \<open>The last handler: \<^verbatim>\<open>except Exception as e: raise Exception(f"Error getting embedding: {str(e)}")\<close>.\<close>

definition reraise :: "py_str \<Rightarrow> py_exception + real list" where
  "reraise msg = Inl (Exception (cp ''Error getting embedding: '' @ msg))"

text \<open>
  \<^verbatim>\<open>get_embedding(text)\<close>. The provider is the parameter \<open>post\<close>; the result is the
  value returned or the exception raised, together with the list of payloads that were
  sent to the provider. Every exception raised inside the \<^verbatim>\<open>try\<close> block that is not a
  connection error or a timeout reaches the last handler and is raised again with the
  prefix. The \<^verbatim>\<open>print\<close> calls are left out.
\<close>

definition get_embedding ::
  "(payload \<Rightarrow> http_outcome) \<Rightarrow> py_str \<Rightarrow> (py_exception + real list) \<times> payload list" where
  "get_embedding post text =
     (if text = [] \<or> py_strip text = []
      then (reraise (cp ''Empty text provided for embedding''), [])
      else
        (let prompt_text = cp ''search_query: '' @ py_strip text;
             pl = \<lparr> model = EMBED_MODEL, prompt = prompt_text \<rparr>
         in (case post pl of
               ConnectionError \<Rightarrow>
                 Inl (Exception (cp (''Cannot connect to Ollama. Please make sure Ollama '' @
                                     ''is running on localhost:11434'')))
             | Timeout \<Rightarrow>
                 Inl (Exception (cp (''Ollama embedding request timed out. '' @
                                     ''The model might be loading.'')))
             | OtherError msg \<Rightarrow> reraise msg
             | Response status body js \<Rightarrow>
                 if status \<noteq> 200
                 then reraise (cp ''Ollama HTTP error '' @ digits status @ cp '': '' @ body)
                 else (case js of
                         JsonError msg \<Rightarrow> reraise msg
                       | JsonData None data_repr \<Rightarrow>
                           reraise (cp ''Ollama embedding error - no '' @ [39] @ cp ''embedding'' @
                                    [39] @ cp '' key in response: '' @ data_repr)
                       | JsonData (Some embedding) data_repr \<Rightarrow>
                           if embedding = []
                           then reraise (cp ''Ollama returned empty embedding'')
                           else Inr embedding),
             [pl])))"

section \<open>Python floats\<close>

text \<open>
  A Python \<^verbatim>\<open>float\<close> is an IEEE 754 binary64 number. Its value is modelled as a real
  number, and every arithmetic operation as the exact operation followed by rounding to
  the nearest number with a 53-bit significand, ties to even. The exponent range is not
  bounded in the model: the quantities of the formulas below (distances, counts times a
  few hundredths, sums below 1) are far from overflow and from the subnormal range.
\<close>

text \<open>For \<open>x \<ge> 1\<close>: how often \<open>x\<close> can be halved before it drops below 2.\<close>

function halvings :: "real \<Rightarrow> nat" where
  "halvings x = (if x < 2 then 0 else Suc (halvings (x / 2)))"
  by pat_completeness auto
termination
proof (relation "measure (\<lambda>x. nat \<lfloor>x\<rfloor>)")
  show "wf (measure (\<lambda>x::real. nat \<lfloor>x\<rfloor>))" by simp
next
  fix x :: real
  assume "\<not> x < 2"
  then have "x / 2 \<le> x - 1" by simp
  then have "\<lfloor>x / 2\<rfloor> \<le> \<lfloor>x - 1\<rfloor>" by (rule floor_mono)
  moreover have "2 \<le> \<lfloor>x\<rfloor>" using \<open>\<not> x < 2\<close> by (simp add: le_floor_iff)
  ultimately show "(x / 2, x) \<in> measure (\<lambda>x. nat \<lfloor>x\<rfloor>)" by simp
qed

text \<open>For \<open>0 < x < 1\<close>: how often \<open>x\<close> must be doubled to reach 1.\<close>

function doublings :: "real \<Rightarrow> nat" where
  "doublings x = (if x \<le> 0 \<or> 1 \<le> x then 0 else Suc (doublings (2 * x)))"
  by pat_completeness auto
termination
proof (relation "measure (\<lambda>x. nat \<lceil>1 / x\<rceil>)")
  show "wf (measure (\<lambda>x::real. nat \<lceil>1 / x\<rceil>))" by simp
next
  fix x :: real
  assume "\<not> (x \<le> 0 \<or> 1 \<le> x)"
  then have x: "0 < x" "x < 1" by simp_all
  define y where "y = 1 / x"
  have "1 < y" using x by (simp add: y_def)
  then have c: "2 \<le> \<lceil>y\<rceil>" by linarith
  then have c': "(2::real) \<le> of_int \<lceil>y\<rceil>" by linarith
  have "y \<le> of_int \<lceil>y\<rceil>" by (rule le_of_int_ceiling)
  with c' have "y / 2 \<le> of_int \<lceil>y\<rceil> - 1" by linarith
  then have "y / 2 \<le> of_int (\<lceil>y\<rceil> - 1)" by simp
  then have "\<lceil>y / 2\<rceil> \<le> \<lceil>y\<rceil> - 1" by (simp only: ceiling_le_iff)
  then have lt: "\<lceil>y / 2\<rceil> < \<lceil>y\<rceil>" by linarith
  have "0 < \<lceil>y\<rceil>" using c by linarith
  then have n: "nat \<lceil>y / 2\<rceil> < nat \<lceil>y\<rceil>" using lt by (simp only: nat_mono_iff)
  have e: "1 / (2 * x) = y / 2" by (simp add: y_def)
  have "nat \<lceil>1 / (2 * x)\<rceil> < nat \<lceil>1 / x\<rceil>"
    using n by (simp only: e y_def [symmetric])
  then show "(2 * x, x) \<in> measure (\<lambda>x. nat \<lceil>1 / x\<rceil>)" by (simp only: in_measure)
qed

declare halvings.simps [simp del] doublings.simps [simp del]

text \<open>The binary exponent of \<open>x > 0\<close>: the \<open>e\<close> with \<open>2^e \<le> x < 2^(e+1)\<close>.\<close>

definition exponent :: "real \<Rightarrow> int" where
  "exponent x = (if 1 \<le> x then int (halvings x) else - int (doublings x))"

text \<open>Rounding to the nearest integer, ties to the even one.\<close>

definition round_even :: "real \<Rightarrow> int" where
  "round_even x =
     (let f = \<lfloor>x\<rfloor>; r = x - of_int f
      in if r < 1 / 2 then f
         else if 1 / 2 < r then f + 1
         else if even f then f else f + 1)"

text \<open>Rounding to binary64: the significand is scaled to \<open>[2^52, 2^53)\<close> and rounded.\<close>

definition fl :: "real \<Rightarrow> real" where
  "fl x =
     (if x = 0 then 0
      else (let e = exponent \<bar>x\<bar> - 52
            in sgn x * of_int (round_even (\<bar>x\<bar> / 2 powi e)) * 2 powi e))"

text \<open>The float operations used by the formulas, and \<^verbatim>\<open>float(n)\<close> for a length.\<close>

definition fadd :: "real \<Rightarrow> real \<Rightarrow> real" where
  "fadd x y = fl (x + y)"

definition fsub :: "real \<Rightarrow> real \<Rightarrow> real" where
  "fsub x y = fl (x - y)"

definition fmul :: "real \<Rightarrow> real \<Rightarrow> real" where
  "fmul x y = fl (x * y)"

definition fdiv :: "real \<Rightarrow> real \<Rightarrow> real" where
  "fdiv x y = fl (x / y)"

definition float_of_nat :: "nat \<Rightarrow> real" where
  "float_of_nat n = fl (of_nat n)"

section \<open>The confidence formulas\<close>

text \<open>
  The confidence formula of \<^verbatim>\<open>extract_key_sections\<close>; \<open>s\<close> is \<^verbatim>\<open>len(sources)\<close> and
  \<open>e\<close> is \<^verbatim>\<open>len(evidence)\<close>. Each decimal literal is the float nearest to it.
  \<^verbatim>\<open>
  base_confidence = 0.7
  source_bonus = min(0.2, len(sources) * 0.04)
  evidence_bonus = min(0.1, len(evidence) * 0.02)
  confidence = min(0.95, base_confidence + source_bonus + evidence_bonus)
  \<close>
\<close>

definition base_confidence :: real where
  "base_confidence = fl (7 / 10)"

definition source_bonus :: "nat \<Rightarrow> real" where
  "source_bonus s = min (fl (2 / 10)) (fmul (float_of_nat s) (fl (4 / 100)))"

definition evidence_bonus :: "nat \<Rightarrow> real" where
  "evidence_bonus e = min (fl (1 / 10)) (fmul (float_of_nat e) (fl (2 / 100)))"

definition confidence_formula :: "nat \<Rightarrow> nat \<Rightarrow> real" where
  "confidence_formula s e =
     min (fl (95 / 100)) (fadd (fadd base_confidence (source_bonus s)) (evidence_bonus e))"

text \<open>
  Python's \<^verbatim>\<open>round(x, ndigits)\<close> on a float: the exact value of \<open>x\<close> is rounded to
  \<open>ndigits\<close> decimal places, a tie going to the even digit, and the decimal number so
  obtained is converted to the float nearest to it.
\<close>

definition py_round :: "real \<Rightarrow> nat \<Rightarrow> real" where
  "py_round x ndigits = fl (of_int (round_even (x * 10 ^ ndigits)) / 10 ^ ndigits)"



text \<open>
  Relevance of a vector distance (\<^verbatim>\<open>_find_relevant_sections\<close>):
  \<^verbatim>\<open>
  max_distance = 1.2
  relevance_score = max(0, (max_distance - distance) / max_distance)
  \<close>
\<close>

definition max_distance :: real where
  "max_distance = fl (12 / 10)"

definition relevance_score :: "real \<Rightarrow> real" where
  "relevance_score distance = max 0 (fdiv (fsub max_distance distance) max_distance)"

text \<open>
  The same transform as the specification writes it, over the real numbers, for comparison:
  \<open>max(0, (1.2 - d) / 1.2)\<close>.
\<close>

definition exact_relevance :: "real \<Rightarrow> real" where
  "exact_relevance d = max 0 ((12 / 10 - d) / (12 / 10))"

text \<open>
  Confidence of a query response, from the distance of the first result:
  \<^verbatim>\<open>confidence = 1 - results['distances'][0][0]\<close>.
\<close>

definition query_confidence :: "real \<Rightarrow> real" where
  "query_confidence distance = fsub 1 distance"

section \<open>The Retriever\<close>

text \<open>
  Modelled from the spec: the record \<open>RetrievalCandidate\<close> of the data model, a chunk
  with its distance and its relevance. The type of chunks is left open.
\<close>

record 'c candidate =
  cand_chunk :: 'c
  distance :: real
  relevance :: real

text \<open>
  Modelled from the spec: the failure of a retrieval, \<open>EmbeddingUnavailable\<close>.
\<close>

datatype retrieval_error = EmbeddingUnavailable

text \<open>
  Modelled from the spec: \<open>retrieve(question, top_k=6, min_relevance=0.2)\<close>. The function
  \<^verbatim>\<open>_find_relevant_sections\<close> of \<^verbatim>\<open>new_rag_system.py\<close> is not among the sources; only its
  relevance formula (above) and a prose summary of its filter are. Following the
  specification: obtain the query embedding from the Embedding Gateway, and fail with
  \<open>EmbeddingUnavailable\<close> if the gateway is unreachable (it answers with an exception) or
  returns an empty vector; query the Vector Index for the \<open>top_k\<close> nearest chunks; convert
  each distance to a relevance; drop the candidates with relevance \<open>\<le> min_relevance\<close>;
  sort by relevance, descending; return at most \<open>top_k\<close> of them. The gateway and the
  index are parameters.
\<close>

definition retrieve ::
  "(py_str \<Rightarrow> py_exception + real list) \<Rightarrow> (real list \<Rightarrow> nat \<Rightarrow> ('c \<times> real) list) \<Rightarrow>
   py_str \<Rightarrow> nat \<Rightarrow> real \<Rightarrow> retrieval_error + 'c candidate list" where
  "retrieve embed_question index_query question top_k min_relevance =
     (case embed_question question of
        Inl err \<Rightarrow> Inl EmbeddingUnavailable
      | Inr v \<Rightarrow>
          if v = [] then Inl EmbeddingUnavailable
          else
            Inr (take top_k
                  (sort_key (\<lambda>c. - relevance c)
                    (filter (\<lambda>c. \<not> relevance c \<le> min_relevance)
                      (map (\<lambda>(ch, d). \<lparr>cand_chunk = ch, distance = d,
                                        relevance = relevance_score d\<rparr>)
                         (index_query v top_k))))))"

section \<open>Auxiliary definitions for the proofs\<close>

text \<open>
  Adjacent chunks of one page are linked by the overlap: the later one starts where the
  earlier one ends, minus \<open>ov\<close>.
\<close>

fun chained :: "int \<Rightarrow> chunk list \<Rightarrow> bool" where
  "chained ov [] = True"
| "chained ov [c] = True"
| "chained ov (c # d # cs) =
     ((page_number c = page_number d \<longrightarrow> start_pos d = end_pos c - ov) \<and> chained ov (d # cs))"

text \<open>A page text whose first chunk is cut at a sentence boundary.\<close>

definition wtext :: py_str where "wtext = cp ''Ab. Cdefghijkl''"


text \<open>The page text of the scenario, and a page text whose first window stalls.\<close>

definition scenario_text :: py_str where
  "scenario_text = cp ''The patient has diabetes. The treatment is insulin. The dosage is 10mg.''"

definition stall_text :: py_str where
  "stall_text = cp ''Stop now. Then the text goes on and on without end''"

text \<open>
  The floats written 0.1, 0.3 and 1.1, as distances of an example query, and the floats
  written 0.6 and 0.8765 of two other examples of the source.
\<close>

definition d_0_1 :: real where "d_0_1 = 3602879701896397 / 2 ^ 55"
definition d_0_3 :: real where "d_0_3 = 5404319552844595 / 2 ^ 54"
definition d_1_1 :: real where "d_1_1 = 2476979795053773 / 2 ^ 51"
definition d_0_6 :: real where "d_0_6 = 5404319552844595 / 2 ^ 53"
definition c_0_8765 :: real where "c_0_8765 = 7894810146780479 / 2 ^ 53"

section \<open>Properties of the embedding gateway and of the chunker\<close>


lemma py_strip_Nil_iff: "py_strip s = [] \<longleftrightarrow> list_all is_space s"
proof -
  have "py_strip s = [] \<longleftrightarrow> (\<forall>x\<in>set (dropWhile is_space s). is_space x)"
    by (simp add: py_strip_def dropWhile_eq_Nil_conv)
  also have "\<dots> \<longleftrightarrow> dropWhile is_space s = []"
  proof
    assume a: "\<forall>x\<in>set (dropWhile is_space s). is_space x"
    show "dropWhile is_space s = []"
    proof (rule ccontr)
      assume n: "dropWhile is_space s \<noteq> []"
      then have "\<not> is_space (hd (dropWhile is_space s))" by (rule hd_dropWhile)
      moreover have "hd (dropWhile is_space s) \<in> set (dropWhile is_space s)" using n by simp
      ultimately show False using a by blast
    qed
  next
    assume "dropWhile is_space s = []"
    then show "\<forall>x\<in>set (dropWhile is_space s). is_space x"
      by (simp del: dropWhile_eq_Nil_conv)
  qed
  also have "\<dots> \<longleftrightarrow> list_all is_space s"
    by (simp add: dropWhile_eq_Nil_conv list_all_iff)
  finally show ?thesis .
qed

text \<open>
  Claim C10. For a text that is empty or consists only of whitespace, \<open>get_embedding\<close>
  raises an exception (it returns no vector), and no payload has been sent to the
  provider: the list of sent payloads is empty, whatever the provider would answer.
\<close>

theorem get_embedding_blank:
  "list_all is_space t \<Longrightarrow>
   get_embedding post t =
     (Inl (Exception (cp ''Error getting embedding: Empty text provided for embedding'')), [])"
proof -
  assume "list_all is_space t"
  then have "py_strip t = []" by (simp only: py_strip_Nil_iff)
  then have "get_embedding post t = (reraise (cp ''Empty text provided for embedding''), [])"
    by (simp add: get_embedding_def)
  also have "reraise (cp ''Empty text provided for embedding'') =
      Inl (Exception (cp ''Error getting embedding: Empty text provided for embedding''))"
    by (simp add: reraise_def cp_def)
  finally show ?thesis .
qed

theorem get_embedding_blank_witness:
  "list_all is_space (cp '' '') \<and>
   get_embedding (\<lambda>p. Response 200 [] (JsonData (Some [1]) [])) (cp '' '') =
     (Inl (Exception (cp ''Error getting embedding: Empty text provided for embedding'')), [])"
  using get_embedding_blank [of "cp '' ''" "\<lambda>p. Response 200 [] (JsonData (Some [1]) [])"]
  by (simp add: cp_def is_space_def)

lemma chained_Cons:
  "chained ov (c # cs) \<longleftrightarrow>
     (cs = [] \<or> (page_number c = page_number (hd cs) \<longrightarrow> start_pos (hd cs) = end_pos c - ov)) \<and>
     chained ov cs"
  by (cases cs) auto

lemma chained_append:
  "chained ov xs \<Longrightarrow> chained ov ys \<Longrightarrow>
   (xs \<noteq> [] \<Longrightarrow> ys \<noteq> [] \<Longrightarrow> page_number (last xs) \<noteq> page_number (hd ys)) \<Longrightarrow>
   chained ov (xs @ ys)"
proof (induction ov xs rule: chained.induct)
  case (1 ov)
  then show ?case by simp
next
  case (2 ov c)
  then show ?case by (cases ys) auto
next
  case (3 ov c d cs)
  then show ?case by auto
qed

lemma chained_nth:
  "chained ov cs \<Longrightarrow> Suc i < length cs \<Longrightarrow> page_number (cs ! i) = page_number (cs ! Suc i) \<Longrightarrow>
   start_pos (cs ! Suc i) = end_pos (cs ! i) - ov"
proof (induction ov cs arbitrary: i rule: chained.induct)
  case (3 ov c d cs)
  show ?case
  proof (cases i)
    case 0
    with 3 show ?thesis by simp
  next
    case (Suc j)
    with 3 show ?thesis by simp
  qed
qed simp_all

lemma page_loop_new:
  "page_loop cs ov pn ptext start cid chunks = Some y \<Longrightarrow>
   \<exists>new. snd y = chunks @ new \<and> fst y = cid + length new \<and> chained ov new \<and>
         (\<forall>c\<in>set new. page_number c = pn) \<and> (new \<noteq> [] \<longrightarrow> start_pos (hd new) = start)"
proof (induction cs ov pn ptext start cid chunks y rule: page_loop.raw_induct[rotated 1, consumes 1])
  case (1 f cs ov pn ptext start cid chunks y)
  let ?e = "fst (snap_end ptext start cs)"
  let ?c = "make_chunk cid pn start ?e (snd (snap_end ptext start cs))"
  show ?case
  proof (cases "start < int (length ptext)")
    case False
    with 1(2) have "y = (cid, chunks)" by simp
    then show ?thesis by simp
  next
    case True
    note lt = this
    show ?thesis
    proof (cases "int (length ptext) \<le> ?e - ov")
      case True
      with lt 1(2) have "y = (Suc cid, chunks @ [?c])" by simp
      moreover have "page_number ?c = pn" "start_pos ?c = start" by (simp_all add: make_chunk_def)
      ultimately show ?thesis by (intro exI[of _ "[?c]"]) simp
    next
      case False
      with lt 1(2)
      have "f cs ov pn ptext (?e - ov) (Suc cid) (chunks @ [?c]) = Some y" by simp
      from 1(1)[OF this] obtain new where
        n: "snd y = (chunks @ [?c]) @ new" "fst y = Suc cid + length new" "chained ov new"
           "\<forall>c\<in>set new. page_number c = pn" "new \<noteq> [] \<longrightarrow> start_pos (hd new) = ?e - ov"
        by blast
      have c: "end_pos ?c = ?e" "page_number ?c = pn" "start_pos ?c = start" by (simp_all add: make_chunk_def)
      have "chained ov (?c # new)" using n(3,5) c(1) by (auto simp: chained_Cons)
      with n c show ?thesis
        by (intro exI[of _ "?c # new"]) simp
    qed
  qed
qed

lemma pages_loop_new:
  "pages_loop cs ov ps cid chunks = Some y \<Longrightarrow> distinct (map page_num ps) \<Longrightarrow>
   chained ov chunks \<Longrightarrow> \<forall>c\<in>set chunks. page_number c \<notin> page_num ` set ps \<Longrightarrow>
   chained ov (snd y)"
proof (induction ps arbitrary: cid chunks)
  case Nil
  then show ?case by auto
next
  case (Cons p ps)
  from Cons.prems(1) obtain cid' chunks' where
    pl: "page_loop cs ov (page_num p) (page_text p) 0 cid chunks = Some (cid', chunks')"
    and rest: "pages_loop cs ov ps cid' chunks' = Some y"
    by (auto split: option.splits)
  from page_loop_new[OF pl] obtain new where
    n: "chunks' = chunks @ new" "chained ov new" "\<forall>c\<in>set new. page_number c = page_num p"
    by auto
  have "chained ov chunks'"
    unfolding n(1)
  proof (rule chained_append[OF Cons.prems(3) n(2)])
    assume "chunks \<noteq> []" "new \<noteq> []"
    then have "last chunks \<in> set chunks" "hd new \<in> set new" by simp_all
    with Cons.prems(4) n(3) show "page_number (last chunks) \<noteq> page_number (hd new)"
      by (metis image_eqI list.set_intros(1))
  qed
  moreover have "\<forall>c\<in>set chunks'. page_number c \<notin> page_num ` set ps"
    using Cons.prems(2,4) n(1,3) by auto
  moreover have "distinct (map page_num ps)" using Cons.prems(2) by simp
  ultimately show ?case using Cons.IH[OF rest] by blast
qed

text \<open>
  Claim C3. Whenever \<open>chunk_pages_with_metadata\<close> returns, any two consecutive chunks
  of its result that come from the same page (the pages have distinct page numbers)
  satisfy \<open>start_pos\<close> of the later = \<open>end_pos\<close> of the earlier minus \<open>overlap\<close>; the
  stored \<open>end_pos\<close> is the end after the sentence-boundary cut, so this includes chunks
  whose end was moved back.
\<close>

theorem chunk_overlap_invariant:
  assumes "chunk_pages_with_metadata pages cs ov = Some out"
    and "distinct (map page_num pages)"
    and "Suc i < length out"
    and "page_number (out ! i) = page_number (out ! Suc i)"
  shows "start_pos (out ! Suc i) = end_pos (out ! i) - ov"
proof -
  from assms(1) obtain y where y: "pages_loop cs ov pages 0 [] = Some y" "out = snd y"
    by (auto simp: chunk_pages_with_metadata_def)
  have "chained ov (snd y)"
    by (rule pages_loop_new[OF y(1) assms(2)]) simp_all
  with y(2) have "chained ov out" by simp
  from chained_nth[OF this assms(3,4)] show ?thesis .
qed

lemma wtext_eq: "wtext = [65, 98, 46, 32, 67, 100, 101, 102, 103, 104, 105, 106, 107, 108]"
  by (simp add: wtext_def cp_def)

lemmas eval_defs = snap_end_def py_slice_def py_index_def Let_def is_terminal_def is_space_def is_upper_def

lemma wsnap0: "snap_end wtext 0 8 = (4, [65, 98, 46, 32])"
  by (simp add: wtext_eq eval_defs)
lemma wsnap3: "snap_end wtext 3 8 = (11, [32, 67, 100, 101, 102, 103, 104, 105])"
  by (simp add: wtext_eq eval_defs)
lemma wsnap10: "snap_end wtext 10 8 = (18, [105, 106, 107, 108])"
  by (simp add: wtext_eq eval_defs)

lemma wloop_page:
  "page_loop 8 1 pn wtext 0 0 [] =
     Some (3, [make_chunk 0 pn 0 4 [65, 98, 46, 32],
               make_chunk 1 pn 3 11 [32, 67, 100, 101, 102, 103, 104, 105],
               make_chunk 2 pn 10 18 [105, 106, 107, 108]])"
proof -
  have len: "length wtext = 14" by (simp add: wtext_eq)
  have "page_loop 8 1 pn wtext 0 0 [] = page_loop 8 1 pn wtext 3 1 [make_chunk 0 pn 0 4 [65, 98, 46, 32]]"
    by (subst page_loop.simps) (simp add: wsnap0 len)
  also have "\<dots> = page_loop 8 1 pn wtext 10 2 [make_chunk 0 pn 0 4 [65, 98, 46, 32],
               make_chunk 1 pn 3 11 [32, 67, 100, 101, 102, 103, 104, 105]]"
    by (subst page_loop.simps) (simp add: wsnap3 len numeral_2_eq_2)
  also have "\<dots> = Some (3, [make_chunk 0 pn 0 4 [65, 98, 46, 32],
               make_chunk 1 pn 3 11 [32, 67, 100, 101, 102, 103, 104, 105],
               make_chunk 2 pn 10 18 [105, 106, 107, 108]])"
    by (subst page_loop.simps) (simp add: wsnap10 len numeral_3_eq_3 numeral_2_eq_2)
  finally show ?thesis .
qed

text \<open>
  A run with three chunks; the first one is cut back from 8 to 4 at the sentence
  boundary, and the second one starts at \<open>4 - 1\<close>.
\<close>

theorem chunk_overlap_invariant_witness:
  "chunk_pages_with_metadata [\<lparr>page_num = 1, page_text = cp ''Ab. Cdefghijkl''\<rparr>] 8 1 =
     Some [\<lparr>chunk_id = cp ''chunk_0'', chunk_text = cp ''search_document: Ab.'',
             page_number = 1, start_pos = 0, end_pos = 4, source = cp ''Page 1''\<rparr>,
           \<lparr>chunk_id = cp ''chunk_1'', chunk_text = cp ''search_document: Cdefghi'',
             page_number = 1, start_pos = 3, end_pos = 11, source = cp ''Page 1''\<rparr>,
           \<lparr>chunk_id = cp ''chunk_2'', chunk_text = cp ''search_document: ijkl'',
             page_number = 1, start_pos = 10, end_pos = 18, source = cp ''Page 1''\<rparr>] \<and>
   distinct (map page_num [\<lparr>page_num = 1, page_text = cp ''Ab. Cdefghijkl''\<rparr>]) \<and>
   start_pos \<lparr>chunk_id = cp ''chunk_1'', chunk_text = cp ''search_document: Cdefghi'',
             page_number = 1, start_pos = 3, end_pos = 11, source = cp ''Page 1''\<rparr> =
     end_pos \<lparr>chunk_id = cp ''chunk_0'', chunk_text = cp ''search_document: Ab.'',
             page_number = 1, start_pos = 0, end_pos = 4, source = cp ''Page 1''\<rparr> - 1"
proof -
  let ?out = "[\<lparr>chunk_id = cp ''chunk_0'', chunk_text = cp ''search_document: Ab.'',
             page_number = 1, start_pos = 0, end_pos = 4, source = cp ''Page 1''\<rparr>,
           \<lparr>chunk_id = cp ''chunk_1'', chunk_text = cp ''search_document: Cdefghi'',
             page_number = 1, start_pos = 3, end_pos = 11, source = cp ''Page 1''\<rparr>,
           \<lparr>chunk_id = cp ''chunk_2'', chunk_text = cp ''search_document: ijkl'',
             page_number = 1, start_pos = 10, end_pos = 18, source = cp ''Page 1''\<rparr>]"
  let ?pages = "[\<lparr>page_num = 1, page_text = cp ''Ab. Cdefghijkl''\<rparr>]"
  have pl: "pages_loop 8 1 [\<lparr>page_num = 1, page_text = wtext\<rparr>] 0 [] =
     Some (3, [make_chunk 0 1 0 4 [65, 98, 46, 32],
               make_chunk 1 1 3 11 [32, 67, 100, 101, 102, 103, 104, 105],
               make_chunk 2 1 10 18 [105, 106, 107, 108]])"
    by (simp add: wloop_page)
  have out_eq: "[make_chunk 0 1 0 4 [65, 98, 46, 32],
               make_chunk 1 1 3 11 [32, 67, 100, 101, 102, 103, 104, 105],
               make_chunk 2 1 10 18 [105, 106, 107, 108]] = ?out"
    by (simp add: make_chunk_def py_strip_def is_space_def cp_def py_str_of_int_def digits.simps)
  have run: "chunk_pages_with_metadata ?pages 8 1 = Some ?out"
    unfolding chunk_pages_with_metadata_def wtext_def [symmetric] pl out_eq by simp
  have d: "distinct (map page_num ?pages)" by simp
  have "start_pos (?out ! Suc 0) = end_pos (?out ! 0) - 1"
    by (rule chunk_overlap_invariant [OF run d]) simp_all
  with run d show ?thesis by simp
qed

lemma scenario_text_eq: "scenario_text = [84, 104, 101, 32, 112, 97, 116, 105, 101, 110, 116, 32, 104, 97, 115, 32, 100, 105, 97, 98, 101, 116, 101, 115, 46, 32, 84, 104, 101, 32, 116, 114, 101, 97, 116, 109, 101, 110, 116, 32, 105, 115, 32, 105, 110, 115, 117, 108, 105, 110, 46, 32, 84, 104, 101, 32, 100, 111, 115, 97, 103, 101, 32, 105, 115, 32, 49, 48, 109, 103, 46]"
  by (simp add: scenario_text_def cp_def)

lemma stall_text_eq: "stall_text = [83, 116, 111, 112, 32, 110, 111, 119, 46, 32, 84, 104, 101, 110, 32, 116, 104, 101, 32, 116, 101, 120, 116, 32, 103, 111, 101, 115, 32, 111, 110, 32, 97, 110, 100, 32, 111, 110, 32, 119, 105, 116, 104, 111, 117, 116, 32, 101, 110, 100]"
  by (simp add: stall_text_def cp_def)

lemma scenario_snap0: "fst (snap_end scenario_text 0 30) = 26"
  by (simp add: scenario_text_eq eval_defs)

lemma scenario_snap16: "fst (snap_end scenario_text 16 30) = 26"
  by (simp add: scenario_text_eq eval_defs)

lemma stall_snap0: "fst (snap_end stall_text 0 30) = 10"
  by (simp add: stall_text_eq eval_defs)

text \<open>A state from which one iteration leads back to the same \<open>start\<close> is never left.\<close>

lemma page_loop_stall:
  assumes "start < int (length ptext)"
    and "fst (snap_end ptext start cs) - ov = start"
  shows "page_loop cs ov pn ptext start cid chunks = None"
proof -
  have "page_loop cs' ov' pn' ptext' start' cid' chunks' = Some y \<Longrightarrow>
        \<not> (cs' = cs \<and> ov' = ov \<and> ptext' = ptext \<and> start' = start)"
    for cs' ov' pn' ptext' start' cid' chunks' y
  proof (induction cs' ov' pn' ptext' start' cid' chunks' y
      rule: page_loop.raw_induct[rotated 1, consumes 1])
    case (1 f cs' ov' pn' ptext' start' cid' chunks' y)
    show ?case
    proof
      assume a: "cs' = cs \<and> ov' = ov \<and> ptext' = ptext \<and> start' = start"
      with 1(2) assms have "f cs ov pn' ptext start (Suc cid')
          (chunks' @ [make_chunk cid' pn' start (fst (snap_end ptext start cs))
                        (snd (snap_end ptext start cs))]) = Some y"
        by simp
      from 1(1)[OF this] show False by simp
    qed
  qed
  note never = this
  show ?thesis
  proof (cases "page_loop cs ov pn ptext start cid chunks")
    case None
    then show ?thesis .
  next
    case (Some y)
    from never [OF Some] show ?thesis by simp
  qed
qed

text \<open>
  Claim C7. The scenario of the specification: the page text
  "The patient has diabetes. The treatment is insulin. The dosage is 10mg." with
  \<open>chunk_size = 30\<close> and \<open>overlap = 10\<close>. The first chunk is cut at offset 26, the next
  window starts at 16 and is cut at 26 again, so \<open>start\<close> stays 16 and the loop never
  exits: no list of chunks is returned.
\<close>

theorem scenario_never_returns:
  "chunk_pages_with_metadata [\<lparr>page_num = 1, page_text = scenario_text\<rparr>] 30 10 = None"
proof -
  have len: "length scenario_text = 71" by (simp add: scenario_text_eq)
  have "page_loop 30 10 1 scenario_text 0 0 [] =
        page_loop 30 10 1 scenario_text 16 (Suc 0)
          ([] @ [make_chunk 0 1 0 (fst (snap_end scenario_text 0 30))
                   (snd (snap_end scenario_text 0 30))])"
    by (subst page_loop.simps) (simp add: scenario_snap0 len)
  also have "\<dots> = None"
    by (rule page_loop_stall) (simp_all add: len scenario_snap16)
  finally show ?thesis
    by (simp add: chunk_pages_with_metadata_def)
qed

text \<open>
  Claim C4. The loop does not exit for every input: for this page text the first window is
  cut at offset 10, so with \<open>overlap = 10\<close> the next \<open>start\<close> is 0 again; the guard
  \<open>start >= text_length\<close> does not fire and the loop never exits.
\<close>

theorem stalled_start_never_aborts:
  "chunk_pages_with_metadata [\<lparr>page_num = 1, page_text = stall_text\<rparr>] 30 10 = None"
proof -
  have len: "length stall_text = 50" by (simp add: stall_text_eq)
  have "page_loop 30 10 1 stall_text 0 0 [] = None"
    by (rule page_loop_stall) (simp_all add: len stall_snap0)
  then show ?thesis
    by (simp add: chunk_pages_with_metadata_def)
qed

lemma py_slice_length:
  assumes "0 \<le> i" "i \<le> j" "j \<le> int (length s)"
  shows "int (length (py_slice s i j)) = j - i"
proof -
  have lo: "py_index (length s) i = nat i" using assms by (simp add: py_index_def)
  have hi: "py_index (length s) j = nat j" using assms by (simp add: py_index_def)
  have "length (py_slice s i j) = min (length s - nat i) (nat j - nat i)"
    by (simp add: py_slice_def Let_def lo hi)
  also have "\<dots> = nat j - nat i" using assms by simp
  finally show ?thesis using assms by simp
qed

lemma snap_end_progress:
  assumes "ov + 150 \<le> cs" "0 \<le> start" "start < int (length ptext)"
  shows "start < fst (snap_end ptext start cs) - ov"
proof (cases "start + cs < int (length ptext)")
  case False
  with assms show ?thesis by (simp add: snap_end_def Let_def)
next
  case True
  note inside = this
  let ?ctext = "py_slice ptext start (start + cs)"
  show ?thesis
  proof (cases "finditer_ends 0 ?ctext")
    case Nil
    with inside assms show ?thesis by (simp add: snap_end_def Let_def)
  next
    case (Cons m ms)
    show ?thesis
    proof (cases "int (last (m # ms)) > int (length ?ctext) - 150")
      case False
      with Cons inside assms show ?thesis by (simp add: snap_end_def Let_def)
    next
      case True
      have "ov < int (last (m # ms))"
      proof (cases "0 < cs")
        case False
        with assms(1) show ?thesis by simp
      next
        case pos: True
        then have "int (length ?ctext) = cs"
          using py_slice_length[of start "start + cs" ptext] assms(2) inside by simp
        with True assms(1) show ?thesis by simp
      qed
      moreover have "fst (snap_end ptext start cs) = start + int (last (m # ms))"
        using Cons inside True by (simp add: snap_end_def Let_def)
      ultimately show ?thesis by simp
    qed
  qed
qed

lemma page_loop_returns:
  assumes "ov + 150 \<le> cs" "0 \<le> start"
  shows "\<exists>y. page_loop cs ov pn ptext start cid chunks = Some y"
  using assms(2)
proof (induction "nat (int (length ptext) - start)" arbitrary: start cid chunks rule: less_induct)
  case less
  show ?case
  proof (cases "start < int (length ptext)")
    case False
    then show ?thesis by (subst page_loop.simps) simp
  next
    case True
    let ?e = "fst (snap_end ptext start cs)"
    have prog: "start < ?e - ov" by (rule snap_end_progress[OF assms(1) less.prems True])
    show ?thesis
    proof (cases "int (length ptext) \<le> ?e - ov")
      case True
      with \<open>start < int (length ptext)\<close> show ?thesis by (subst page_loop.simps) simp
    next
      case False
      have "nat (int (length ptext) - (?e - ov)) < nat (int (length ptext) - start)"
        using prog False by simp
      moreover have "0 \<le> ?e - ov" using prog less.prems by simp
      ultimately obtain y where
        "page_loop cs ov pn ptext (?e - ov) (Suc cid)
           (chunks @ [make_chunk cid pn start ?e (snd (snap_end ptext start cs))]) = Some y"
        using less.hyps by blast
      with False \<open>start < int (length ptext)\<close> show ?thesis
        by (subst page_loop.simps) simp
    qed
  qed
qed

lemma pages_loop_returns:
  assumes "ov + 150 \<le> cs"
  shows "\<exists>y. pages_loop cs ov ps cid chunks = Some y"
proof (induction ps arbitrary: cid chunks)
  case Nil
  show ?case by simp
next
  case (Cons p ps)
  from page_loop_returns[OF assms, of 0 "page_num p" "page_text p" cid chunks]
  obtain cid' chunks' where
    "page_loop cs ov (page_num p) (page_text p) 0 cid chunks = Some (cid', chunks')" by auto
  with Cons.IH[of cid' chunks'] show ?case by simp
qed

text \<open>
  When \<open>overlap + 150 \<le> chunk_size\<close>, as with the defaults 1000 and 200, every window
  moves \<open>start\<close> forward, also after a cut, and the chunker returns for every input.
\<close>

lemma chunk_pages_with_metadata_returns:
  "ov + 150 \<le> cs \<Longrightarrow> \<exists>out. chunk_pages_with_metadata pages_data cs ov = Some out"
  using pages_loop_returns[of ov cs pages_data 0 "[]"]
  by (auto simp: chunk_pages_with_metadata_def)

lemma chunk_pages_with_metadata_defaults:
  "\<exists>out. chunk_pages_with_metadata pages_data 1000 200 = Some out"
  by (rule chunk_pages_with_metadata_returns) simp

lemma load_pages_from_nums:
  "p \<in> set (load_pages_from n ts) \<Longrightarrow>
   \<exists>j<length ts. page_num p = int (n + j) + 1 \<and> py_strip (ts ! j) \<noteq> []"
proof (induction ts arbitrary: n)
  case Nil
  then show ?case by simp
next
  case (Cons t ts)
  show ?case
  proof (cases "p \<in> set (load_pages_from (Suc n) ts)")
    case True
    from Cons.IH[OF this] obtain j where
      "j < length ts" "page_num p = int (Suc n + j) + 1" "py_strip (ts ! j) \<noteq> []" by blast
    then show ?thesis by (intro exI[of _ "Suc j"]) simp
  next
    case False
    with Cons.prems have "py_strip t \<noteq> []" "p = \<lparr>page_num = int n + 1, page_text = py_strip t\<rparr>"
      by (auto split: if_splits)
    then show ?thesis by (intro exI[of _ 0]) simp
  qed
qed

lemma pages_loop_page_numbers:
  "pages_loop cs ov ps cid chunks = Some y \<Longrightarrow> c \<in> set (snd y) \<Longrightarrow>
   c \<in> set chunks \<or> page_number c \<in> page_num ` set ps"
proof (induction ps arbitrary: cid chunks)
  case Nil
  then show ?case by auto
next
  case (Cons p ps)
  from Cons.prems(1) obtain cid' chunks' where
    pl: "page_loop cs ov (page_num p) (page_text p) 0 cid chunks = Some (cid', chunks')"
    and rest: "pages_loop cs ov ps cid' chunks' = Some y"
    by (auto split: option.splits)
  from page_loop_new[OF pl] obtain new where
    n: "chunks' = chunks @ new" "\<forall>c\<in>set new. page_number c = page_num p"
    by auto
  from Cons.IH[OF rest Cons.prems(2)] n show ?case by auto
qed

text \<open>
  Claim C8. A page whose extracted text is empty or only whitespace is left out by
  \<open>load_pdf_with_pages\<close>, so in the pipeline loader-then-chunker no chunk carries its page
  number, and a document that consists of this page alone gives the empty list of chunks,
  a normal result.
\<close>

theorem blank_page_yields_no_chunks:
  assumes "i < length doc" and "list_all is_space (doc ! i)"
  shows "(\<forall>out. chunk_pages_with_metadata (load_pdf_with_pages doc) cs ov = Some out \<longrightarrow>
            (\<forall>c\<in>set out. page_number c \<noteq> int i + 1)) \<and>
         chunk_pages_with_metadata (load_pdf_with_pages [doc ! i]) cs ov = Some []"
proof
  have blank: "py_strip (doc ! i) = []" using assms(2) by (simp only: py_strip_Nil_iff)
  show "\<forall>out. chunk_pages_with_metadata (load_pdf_with_pages doc) cs ov = Some out \<longrightarrow>
            (\<forall>c\<in>set out. page_number c \<noteq> int i + 1)"
  proof (intro allI impI ballI)
    fix out c
    assume run: "chunk_pages_with_metadata (load_pdf_with_pages doc) cs ov = Some out"
      and c: "c \<in> set out"
    from run obtain y where
      y: "pages_loop cs ov (load_pages_from 0 doc) 0 [] = Some y" "out = snd y"
      by (auto simp: chunk_pages_with_metadata_def load_pdf_with_pages_def)
    from pages_loop_page_numbers[OF y(1)] c y(2)
    have "page_number c \<in> page_num ` set (load_pages_from 0 doc)" by auto
    then obtain p where p: "p \<in> set (load_pages_from 0 doc)" "page_number c = page_num p" by auto
    from load_pages_from_nums[OF p(1)] obtain j where
      j: "j < length doc" "page_num p = int (0 + j) + 1" "py_strip (doc ! j) \<noteq> []" by blast
    show "page_number c \<noteq> int i + 1"
    proof
      assume "page_number c = int i + 1"
      with p(2) j(2) have "j = i" by simp
      with j(3) blank show False by simp
    qed
  qed
  show "chunk_pages_with_metadata (load_pdf_with_pages [doc ! i]) cs ov = Some []"
    by (simp add: chunk_pages_with_metadata_def load_pdf_with_pages_def blank)
qed

text \<open>A document with a blank first page: all chunks come from page 2.\<close>

theorem blank_page_yields_no_chunks_witness:
  "0 < length [cp ''  '', cp ''Ab. Cdefghijkl''] \<and>
   list_all is_space ([cp ''  '', cp ''Ab. Cdefghijkl''] ! 0) \<and>
   map_option (map page_number)
     (chunk_pages_with_metadata (load_pdf_with_pages [cp ''  '', cp ''Ab. Cdefghijkl'']) 8 1) =
     Some [2, 2, 2] \<and>
   chunk_pages_with_metadata (load_pdf_with_pages [[cp ''  '', cp ''Ab. Cdefghijkl''] ! 0]) 8 1 =
     Some []"
proof -
  let ?doc = "[cp ''  '', cp ''Ab. Cdefghijkl'']"
  have b: "list_all is_space (?doc ! 0)" by (simp add: cp_def is_space_def)
  have s: "py_strip wtext = wtext" by (simp add: wtext_eq py_strip_def is_space_def)
  have b': "py_strip (cp ''  '') = []" by (simp add: cp_def py_strip_def is_space_def)
  have s': "py_strip (cp ''Ab. Cdefghijkl'') = wtext" using s by (simp add: wtext_def)
  have ne: "wtext \<noteq> []" by (simp add: wtext_eq)
  have l: "load_pdf_with_pages ?doc = [\<lparr>page_num = 2, page_text = wtext\<rparr>]"
    by (simp add: load_pdf_with_pages_def b' s' ne)
  have "map_option (map page_number)
          (chunk_pages_with_metadata (load_pdf_with_pages ?doc) 8 1) = Some [2, 2, 2]"
    by (simp add: l chunk_pages_with_metadata_def wloop_page make_chunk_def)
  with b blank_page_yields_no_chunks [of 0 ?doc 8 1] show ?thesis by simp
qed

lemma get_embedding_sent:
  "snd (get_embedding post t) =
     (if list_all is_space t then []
      else [\<lparr>model = EMBED_MODEL, prompt = cp ''search_query: '' @ py_strip t\<rparr>])"
proof (cases "list_all is_space t")
  case True
  then have "py_strip t = []" by (simp only: py_strip_Nil_iff)
  with True show ?thesis by (simp add: get_embedding_def)
next
  case False
  then have "py_strip t \<noteq> []" by (simp only: py_strip_Nil_iff not_False_eq_True)
  moreover from this have "t \<noteq> []" by (auto simp: py_strip_def)
  ultimately show ?thesis using False by (simp add: get_embedding_def Let_def)
qed

text \<open>
  Claim C9. \<open>get_embedding\<close> has no role parameter: whatever text it is given, the prompt
  sent to the provider starts with "search_query: ". A stored chunk already carries
  "search_document: " in its text, so its prompt is
  "search_query: search_document: ...", with the query prefix in front, as for a question.
\<close>

theorem document_chunk_sent_with_query_prefix:
  "chunk_pages_with_metadata [\<lparr>page_num = 1, page_text = cp ''abc''\<rparr>] 1000 200 =
     Some [\<lparr>chunk_id = cp ''chunk_0'', chunk_text = cp ''search_document: abc'',
             page_number = 1, start_pos = 0, end_pos = 1000, source = cp ''Page 1''\<rparr>] \<and>
   snd (get_embedding post (cp ''search_document: abc'')) =
     [\<lparr>model = EMBED_MODEL, prompt = cp ''search_query: search_document: abc''\<rparr>] \<and>
   snd (get_embedding post (cp ''abc'')) =
     [\<lparr>model = EMBED_MODEL, prompt = cp ''search_query: abc''\<rparr>]"
proof -
  have sn: "snap_end [97, 98, 99] 0 1000 = (1000, [97, 98, 99])"
    by (simp add: eval_defs)
  have "page_loop 1000 200 1 [97, 98, 99] 0 0 [] = Some (1, [make_chunk 0 1 0 1000 [97, 98, 99]])"
    by (subst page_loop.simps) (simp add: sn)
  then have 1: "chunk_pages_with_metadata [\<lparr>page_num = 1, page_text = cp ''abc''\<rparr>] 1000 200 =
     Some [\<lparr>chunk_id = cp ''chunk_0'', chunk_text = cp ''search_document: abc'',
             page_number = 1, start_pos = 0, end_pos = 1000, source = cp ''Page 1''\<rparr>]"
    by (simp add: chunk_pages_with_metadata_def cp_def make_chunk_def py_strip_def is_space_def
          py_str_of_int_def digits.simps)
  have 2: "snd (get_embedding post (cp ''search_document: abc'')) =
     [\<lparr>model = EMBED_MODEL, prompt = cp ''search_query: search_document: abc''\<rparr>]"
    by (simp add: get_embedding_sent) (simp add: cp_def py_strip_def is_space_def)
  have 3: "snd (get_embedding post (cp ''abc'')) =
     [\<lparr>model = EMBED_MODEL, prompt = cp ''search_query: abc''\<rparr>]"
    by (simp add: get_embedding_sent) (simp add: cp_def py_strip_def is_space_def)
  from 1 2 3 show ?thesis by blast
qed

text \<open>
  The chunker alone does emit a chunk, with an empty body, for a page text of whitespace;
  in the pipeline such a page never reaches it.
\<close>

lemma whitespace_text_in_chunker:
  "chunk_pages_with_metadata [\<lparr>page_num = 1, page_text = cp ''   ''\<rparr>] 1000 200 =
     Some [\<lparr>chunk_id = cp ''chunk_0'', chunk_text = cp ''search_document: '',
             page_number = 1, start_pos = 0, end_pos = 1000, source = cp ''Page 1''\<rparr>]"
proof -
  have sn: "snap_end [32, 32, 32] 0 1000 = (1000, [32, 32, 32])"
    by (simp add: eval_defs)
  have "page_loop 1000 200 1 [32, 32, 32] 0 0 [] = Some (1, [make_chunk 0 1 0 1000 [32, 32, 32]])"
    by (subst page_loop.simps) (simp add: sn)
  then show ?thesis
    by (simp add: chunk_pages_with_metadata_def cp_def make_chunk_def py_strip_def is_space_def
          py_str_of_int_def digits.simps)
qed

section \<open>Rounding to the nearest float\<close>


lemma halvings_bounds: "1 \<le> x \<Longrightarrow> 2 ^ halvings x \<le> x \<and> x < 2 * 2 ^ halvings x"
proof (induction x rule: halvings.induct)
  case (1 x)
  show ?case
  proof (cases "x < 2")
    case True
    then have "halvings x = 0" by (subst halvings.simps) simp
    with True 1(2) show ?thesis by simp
  next
    case False
    then have h: "halvings x = Suc (halvings (x / 2))" by (subst halvings.simps) simp
    from False have "1 \<le> x / 2" by simp
    from 1(1)[OF False this] show ?thesis unfolding h by simp
  qed
qed

lemma doublings_bounds:
  "0 < x \<Longrightarrow> x < 1 \<Longrightarrow> 1 \<le> x * 2 ^ doublings x \<and> x * 2 ^ doublings x < 2"
proof (induction x rule: doublings.induct)
  case (1 x)
  from 1(2,3) have c: "\<not> (x \<le> 0 \<or> 1 \<le> x)" by simp
  then have d: "doublings x = Suc (doublings (2 * x))" by (subst doublings.simps) simp
  show ?case
  proof (cases "2 * x < 1")
    case True
    from 1(1)[OF c _ True] 1(2) show ?thesis unfolding d by (simp add: mult.assoc mult.left_commute)
  next
    case False
    then have "doublings (2 * x) = 0" by (subst doublings.simps) simp
    with False 1(3) show ?thesis unfolding d by simp
  qed
qed

lemma exponent_bounds:
  assumes "0 < x"
  shows "2 powi exponent x \<le> x \<and> x < 2 * 2 powi exponent x"
proof (cases "1 \<le> x")
  case True
  then have "exponent x = int (halvings x)" by (simp add: exponent_def)
  with halvings_bounds[OF True] show ?thesis by simp
next
  case False
  then have lt: "x < 1" by simp
  have e: "exponent x = - int (doublings x)" using False by (simp add: exponent_def)
  have p: "(2::real) powi (- int (doublings x)) = 1 / 2 ^ doublings x"
    by (simp add: power_int_minus field_simps)
  from doublings_bounds[OF assms lt] show ?thesis
    unfolding e p by (simp add: field_simps)
qed

lemma two_powi_Suc: "(2::real) powi (k + 1) = 2 * 2 powi k"
  by (simp add: power_int_add_1')

lemma exponent_unique:
  assumes "0 < x" "2 powi k \<le> x" "x < 2 * 2 powi k"
  shows "exponent x = k"
proof (rule ccontr)
  assume ne: "exponent x \<noteq> k"
  from exponent_bounds[OF assms(1)]
  have b: "2 powi exponent x \<le> x" "x < 2 * 2 powi exponent x" by simp_all
  show False
  proof (cases "exponent x < k")
    case True
    then have "(2::real) powi (exponent x + 1) \<le> 2 powi k"
      by (intro power_int_increasing) simp_all
    with b(2) assms(2) show False by (simp add: two_powi_Suc)
  next
    case False
    with ne have "k + 1 \<le> exponent x" by simp
    then have "(2::real) powi (k + 1) \<le> 2 powi exponent x"
      by (intro power_int_increasing) simp_all
    with b(1) assms(3) show False by (simp add: two_powi_Suc)
  qed
qed

lemma round_even_bounds: "\<lfloor>x\<rfloor> \<le> round_even x \<and> round_even x \<le> \<lfloor>x\<rfloor> + 1"
  by (simp add: round_even_def Let_def)

lemma round_even_of_int: "round_even (of_int n) = n"
  by (simp add: round_even_def)

lemma round_even_mono:
  assumes "x \<le> y"
  shows "round_even x \<le> round_even y"
proof (cases "\<lfloor>x\<rfloor> = \<lfloor>y\<rfloor>")
  case True
  with assms show ?thesis
    by (auto simp: round_even_def Let_def)
next
  case False
  moreover from assms have "\<lfloor>x\<rfloor> \<le> \<lfloor>y\<rfloor>" by (rule floor_mono)
  ultimately have "\<lfloor>x\<rfloor> + 1 \<le> \<lfloor>y\<rfloor>" by simp
  with round_even_bounds[of x] round_even_bounds[of y] show ?thesis by linarith
qed

lemma round_even_ge: "of_int a \<le> x \<Longrightarrow> a \<le> round_even x"
  using round_even_mono[of "of_int a" x] by (simp add: round_even_of_int)

lemma round_even_le: "x \<le> of_int b \<Longrightarrow> round_even x \<le> b"
  using round_even_mono[of x "of_int b"] by (simp add: round_even_of_int)

lemma fl_pos_eq:
  "0 < x \<Longrightarrow> fl x = of_int (round_even (x / 2 powi (exponent x - 52))) * 2 powi (exponent x - 52)"
  by (simp add: fl_def Let_def)

lemma fl_eval:
  assumes "0 < x" "2 powi k \<le> x" "x < 2 * 2 powi k"
  shows "fl x = of_int (round_even (x / 2 powi (k - 52))) * 2 powi (k - 52)"
  using exponent_unique[OF assms] fl_pos_eq[OF assms(1)] by simp

lemma two_powi_split: "(2::real) powi k = 2 ^ 52 * 2 powi (k - 52)"
proof -
  have "(2::real) powi k = 2 powi (52 + (k - 52))" by simp
  also have "\<dots> = 2 powi 52 * 2 powi (k - 52)" by (subst power_int_add) simp_all
  finally show ?thesis by simp
qed

lemma fl_pos_bounds:
  assumes "0 < x"
  shows "2 powi exponent x \<le> fl x \<and> fl x \<le> 2 * 2 powi exponent x"
proof -
  define e where "e = exponent x"
  define S where "S = (2::real) powi (e - 52)"
  have S: "0 < S" by (simp add: S_def)
  have pe: "2 powi e = 2 ^ 52 * S" unfolding S_def by (rule two_powi_split)
  from exponent_bounds[OF assms] have b: "2 ^ 52 * S \<le> x" "x < 2 * (2 ^ 52 * S)"
    by (simp_all add: e_def [symmetric] pe)
  have lo: "of_int (2 ^ 52) \<le> x / S" using b(1) S by (simp add: field_simps)
  have hi: "x / S \<le> of_int (2 * 2 ^ 52)" using b(2) S by (simp add: field_simps)
  have r1: "2 ^ 52 \<le> round_even (x / S)" by (rule round_even_ge[OF lo])
  have r2: "round_even (x / S) \<le> 2 * 2 ^ 52" by (rule round_even_le[OF hi])
  have f: "fl x = of_int (round_even (x / S)) * S"
    unfolding S_def e_def by (rule fl_pos_eq[OF assms])
  from r1 have "(2::real) ^ 52 \<le> of_int (round_even (x / S))"
    by (metis of_int_le_iff of_int_numeral of_int_power)
  then have 1: "2 ^ 52 * S \<le> fl x" unfolding f using S by simp
  from r2 have "of_int (round_even (x / S)) \<le> (2::real) * 2 ^ 52"
    by (metis of_int_le_iff of_int_numeral of_int_power of_int_mult)
  then have 2: "fl x \<le> 2 * (2 ^ 52 * S)" unfolding f using S
    by (simp add: mult.assoc [symmetric])
  from 1 2 show ?thesis by (simp add: e_def [symmetric] pe)
qed

lemma fl_pos_mono:
  assumes "0 < x" "x \<le> y"
  shows "fl x \<le> fl y"
proof -
  from assms have y: "0 < y" by simp
  note bx = exponent_bounds[OF assms(1)] and bnd_y = exponent_bounds[OF y]
  have le: "exponent x \<le> exponent y"
  proof (rule ccontr)
    assume "\<not> exponent x \<le> exponent y"
    then have "exponent y + 1 \<le> exponent x" by simp
    then have "(2::real) powi (exponent y + 1) \<le> 2 powi exponent x"
      by (intro power_int_increasing) simp_all
    with bx bnd_y assms(2) show False by (simp add: two_powi_Suc)
  qed
  show ?thesis
  proof (cases "exponent x = exponent y")
    case True
    have S: "0 < (2::real) powi (exponent y - 52)" by simp
    have "x / 2 powi (exponent y - 52) \<le> y / 2 powi (exponent y - 52)"
      using assms(2) S by (simp add: divide_right_mono)
    then have "round_even (x / 2 powi (exponent y - 52)) \<le> round_even (y / 2 powi (exponent y - 52))"
      by (rule round_even_mono)
    then have "of_int (round_even (x / 2 powi (exponent y - 52))) * 2 powi (exponent y - 52)
          \<le> of_int (round_even (y / 2 powi (exponent y - 52))) * (2::real) powi (exponent y - 52)"
      using S by (simp add: mult_right_mono)
    then show ?thesis
      by (simp add: fl_pos_eq[OF assms(1)] fl_pos_eq[OF y] True)
  next
    case False
    with le have "exponent x + 1 \<le> exponent y" by simp
    then have "(2::real) powi (exponent x + 1) \<le> 2 powi exponent y"
      by (intro power_int_increasing) simp_all
    with fl_pos_bounds[OF assms(1)] fl_pos_bounds[OF y] show ?thesis
      by (simp add: two_powi_Suc)
  qed
qed

lemma fl_zero: "fl 0 = 0"
  by (simp add: fl_def)

lemma fl_minus: "fl (- x) = - fl x"
  by (simp add: fl_def Let_def sgn_minus)

lemma fl_pos: "0 < x \<Longrightarrow> 0 < fl x"
proof -
  assume x: "0 < x"
  have "0 < (2::real) powi exponent x" by simp
  with fl_pos_bounds[OF x] show ?thesis by linarith
qed

lemma fl_mono:
  assumes "x \<le> y"
  shows "fl x \<le> fl y"
proof -
  consider "0 < x" | "x = 0" | "x < 0" by linarith
  then show ?thesis
  proof cases
    case 1
    then show ?thesis using assms by (rule fl_pos_mono)
  next
    case 2
    show ?thesis
    proof (cases "y = 0")
      case True
      with 2 show ?thesis by simp
    next
      case False
      with 2 assms have "0 < y" by simp
      from fl_pos[OF this] 2 show ?thesis by (simp add: fl_zero)
    qed
  next
    case 3
    then have nx: "fl x < 0" using fl_pos[of "- x"] by (simp add: fl_minus)
    show ?thesis
    proof (cases "y < 0")
      case True
      with assms have "0 < - y" "- y \<le> - x" by simp_all
      then have "fl (- y) \<le> fl (- x)" by (rule fl_pos_mono)
      then show ?thesis by (simp add: fl_minus)
    next
      case False
      then have "0 \<le> fl y" using fl_pos[of y] by (cases "y = 0") (simp_all add: fl_zero less_eq_real_def)
      with nx show ?thesis by simp
    qed
  qed
qed

text \<open>The error of a rounding: half a unit in the last place, at most.\<close>

lemma round_even_error: "\<bar>of_int (round_even x) - x\<bar> \<le> 1 / 2"
proof -
  have "of_int \<lfloor>x\<rfloor> \<le> x" "x < of_int \<lfloor>x\<rfloor> + 1" by linarith+
  then show ?thesis unfolding round_even_def Let_def by (auto simp: abs_le_iff)
qed


lemma fl_pos_error:
  assumes "0 < x"
  shows "\<bar>fl x - x\<bar> \<le> x / 2 ^ 53"
proof -
  define p :: real where "p = 2 powi (exponent x - 52)"
  have p: "0 < p" by (simp add: p_def)
  have s: "2 powi exponent x = 2 ^ 52 * p" unfolding p_def by (rule two_powi_split)
  from exponent_bounds[OF assms] have lo: "2 ^ 52 * p \<le> x" unfolding s by simp
  have f: "fl x = of_int (round_even (x / p)) * p" unfolding p_def by (rule fl_pos_eq[OF assms])
  have "\<bar>of_int (round_even (x / p)) - x / p\<bar> \<le> 1 / 2" by (rule round_even_error)
  then have "\<bar>of_int (round_even (x / p)) - x / p\<bar> * p \<le> 1 / 2 * p"
    using p by (intro mult_right_mono) simp_all
  moreover have "\<bar>of_int (round_even (x / p)) - x / p\<bar> * p = \<bar>fl x - x\<bar>"
  proof -
    have "\<bar>of_int (round_even (x / p)) - x / p\<bar> * p = \<bar>(of_int (round_even (x / p)) - x / p) * p\<bar>"
      using p by (simp add: abs_mult)
    also have "(of_int (round_even (x / p)) - x / p) * p = fl x - x"
      using p by (simp add: f algebra_simps)
    finally show ?thesis .
  qed
  ultimately have "\<bar>fl x - x\<bar> \<le> p / 2" by simp
  also have "p / 2 \<le> x / 2 ^ 53" using lo by simp
  finally show ?thesis .
qed

lemma fl_error: "\<bar>fl x - x\<bar> \<le> \<bar>x\<bar> / 2 ^ 53"
proof (cases "0 < x")
  case True
  then show ?thesis using fl_pos_error[of x] by simp
next
  case False
  show ?thesis
  proof (cases "x = 0")
    case True
    then show ?thesis by (simp add: fl_zero)
  next
    case False
    with \<open>\<not> 0 < x\<close> have n: "0 < - x" by simp
    from fl_pos_error[OF n] show ?thesis using n by (simp add: fl_minus)
  qed
qed

section \<open>Values of the float literals and of the formulas\<close>

lemma fl_eval_neg:
  assumes "0 < x" "1 / 2 ^ n \<le> x" "x < 2 / 2 ^ n"
  shows "fl x = of_int (round_even (x * 2 ^ (n + 52))) / 2 ^ (n + 52)"
proof -
  have p: "(2::real) powi (- int n) = 1 / 2 ^ n"
    by (simp add: power_int_minus field_simps)
  have q: "(2::real) powi (- int n - 52) = 1 / 2 ^ (n + 52)"
  proof -
    have "- int n - 52 = - int (n + 52)" by simp
    then show ?thesis by (simp only: power_int_minus power_int_of_nat inverse_eq_divide)
  qed
  have "fl x = of_int (round_even (x / 2 powi (- int n - 52))) * 2 powi (- int n - 52)"
    by (rule fl_eval[OF assms(1)]) (use assms in \<open>simp_all add: p\<close>)
  then show ?thesis unfolding q by simp
qed

lemma fl_eval_pos:
  assumes "0 < x" "2 ^ n \<le> x" "x < 2 * 2 ^ n" "n \<le> 52"
  shows "fl x = of_int (round_even (x * 2 ^ (52 - n))) / 2 ^ (52 - n)"
proof -
  have q: "(2::real) powi (int n - 52) = 1 / 2 ^ (52 - n)"
  proof -
    have "int n - 52 = - int (52 - n)" using assms(4) by simp
    then show ?thesis by (simp only: power_int_minus power_int_of_nat inverse_eq_divide)
  qed
  have "fl x = of_int (round_even (x / 2 powi (int n - 52))) * 2 powi (int n - 52)"
    by (rule fl_eval[OF assms(1)]) (use assms in simp_all)
  then show ?thesis unfolding q by simp
qed

lemma c07: "fl (7 / 10) = 3152519739159347 / 2 ^ 52"
  by (subst fl_eval_neg[where n = 1]) (simp_all add: round_even_def)

lemma c02: "fl (2 / 10) = 3602879701896397 / 2 ^ 54"
  by (subst fl_eval_neg[where n = 3]) (simp_all add: round_even_def)

lemma c01: "fl (1 / 10) = 3602879701896397 / 2 ^ 55"
  by (subst fl_eval_neg[where n = 4]) (simp_all add: round_even_def)

lemma c004: "fl (4 / 100) = 5764607523034235 / 2 ^ 57"
  by (subst fl_eval_neg[where n = 5]) (simp_all add: round_even_def)

lemma c002: "fl (2 / 100) = 5764607523034235 / 2 ^ 58"
  by (subst fl_eval_neg[where n = 6]) (simp_all add: round_even_def)

lemma c095: "fl (95 / 100) = 4278419646001971 / 2 ^ 52"
  by (subst fl_eval_neg[where n = 1]) (simp_all add: round_even_def)


lemma c12: "fl (12 / 10) = 5404319552844595 / 2 ^ 52"
  by (subst fl_eval_pos[where n = 0]) (simp_all add: round_even_def)

lemma fl_1: "fl 1 = 1"
  by (subst fl_eval_pos[where n = 0]) (simp_all add: round_even_def)

lemma fl_3: "fl 3 = 3"
  by (subst fl_eval_pos[where n = 1]) (simp_all add: round_even_def)

lemma fl_5: "fl 5 = 5"
  by (subst fl_eval_pos[where n = 2]) (simp_all add: round_even_def)

lemma base_confidence_fix: "fl base_confidence = base_confidence"
  unfolding base_confidence_def c07
  by (subst fl_eval_neg[where n = 1]) (simp_all add: round_even_def)

lemma source_bonus_3: "source_bonus 3 = 1080863910568919 / 2 ^ 53"
proof -
  have "fl (3 * (5764607523034235 / 2 ^ 57)) = 1080863910568919 / 2 ^ 53"
    by (subst fl_eval_neg[where n = 4]) (simp_all add: round_even_def)
  then show ?thesis
    unfolding source_bonus_def fmul_def float_of_nat_def of_nat_numeral fl_3 c004 c02 by simp
qed

lemma evidence_bonus_3: "evidence_bonus 3 = 1080863910568919 / 2 ^ 54"
proof -
  have "fl (3 * (5764607523034235 / 2 ^ 58)) = 1080863910568919 / 2 ^ 54"
    by (subst fl_eval_neg[where n = 5]) (simp_all add: round_even_def)
  then show ?thesis
    unfolding evidence_bonus_def fmul_def float_of_nat_def of_nat_numeral fl_3 c002 c01 by simp
qed

lemma source_bonus_5: "source_bonus 5 = fl (2 / 10)"
proof -
  have "fl (5 * (5764607523034235 / 2 ^ 57)) = 3602879701896397 / 2 ^ 54"
    by (subst fl_eval_neg[where n = 3]) (simp_all add: round_even_def)
  then show ?thesis
    unfolding source_bonus_def fmul_def float_of_nat_def of_nat_numeral fl_5 c004 c02 by simp
qed

lemma evidence_bonus_5: "evidence_bonus 5 = fl (1 / 10)"
proof -
  have "fl (5 * (5764607523034235 / 2 ^ 58)) = 3602879701896397 / 2 ^ 55"
    by (subst fl_eval_neg[where n = 4]) (simp_all add: round_even_def)
  then show ?thesis
    unfolding evidence_bonus_def fmul_def float_of_nat_def of_nat_numeral fl_5 c002 c01 by simp
qed

lemma confidence_formula_3_3: "confidence_formula 3 3 = 7926335344172072 / 2 ^ 53"
proof -
  have 1: "fl (3152519739159347 / 2 ^ 52 + 1080863910568919 / 2 ^ 53) = 7385903388887613 / 2 ^ 53"
    by (subst fl_eval_neg[where n = 1]) (simp_all add: round_even_def)
  have 2: "fl (7385903388887613 / 2 ^ 53 + 1080863910568919 / 2 ^ 54) = 7926335344172072 / 2 ^ 53"
    by (subst fl_eval_neg[where n = 1]) (simp_all add: round_even_def)
  have "fadd (fadd base_confidence (source_bonus 3)) (evidence_bonus 3) = 7926335344172072 / 2 ^ 53"
    unfolding fadd_def base_confidence_def c07 source_bonus_3 evidence_bonus_3 1 2 ..
  then show ?thesis
    unfolding confidence_formula_def c095 by simp
qed

lemma confidence_formula_5_5: "confidence_formula 5 5 = fl (95 / 100)"
proof -
  have 1: "fl (3152519739159347 / 2 ^ 52 + 3602879701896397 / 2 ^ 54) = 2026619832316723 / 2 ^ 51"
    by (subst fl_eval_neg[where n = 1]) (simp_all add: round_even_def)
  have 2: "fl (2026619832316723 / 2 ^ 51 + 3602879701896397 / 2 ^ 55) = 9007199254740991 / 2 ^ 53"
    by (subst fl_eval_neg[where n = 1]) (simp_all add: round_even_def)
  have "fadd (fadd base_confidence (source_bonus 5)) (evidence_bonus 5) = 9007199254740991 / 2 ^ 53"
    unfolding fadd_def base_confidence_def source_bonus_5 evidence_bonus_5 c07 c02 c01 1 2 ..
  then show ?thesis
    unfolding confidence_formula_def c095 by simp
qed

lemma float_of_nat_mono: "m \<le> n \<Longrightarrow> float_of_nat m \<le> float_of_nat n"
  unfolding float_of_nat_def by (rule fl_mono) simp

lemma fl_nonneg: "0 \<le> x \<Longrightarrow> 0 \<le> fl x"
  using fl_mono[of 0 x] by (simp add: fl_zero)

lemma float_of_nat_nonneg: "0 \<le> float_of_nat n"
  unfolding float_of_nat_def by (rule fl_nonneg) simp

lemma source_bonus_mono: "s \<le> s' \<Longrightarrow> source_bonus s \<le> source_bonus s'"
proof -
  assume "s \<le> s'"
  then have "float_of_nat s \<le> float_of_nat s'" by (rule float_of_nat_mono)
  moreover have "0 \<le> fl (4 / 100)" by (rule fl_nonneg) simp
  ultimately have "float_of_nat s * fl (4 / 100) \<le> float_of_nat s' * fl (4 / 100)"
    by (rule mult_right_mono)
  then have "fmul (float_of_nat s) (fl (4 / 100)) \<le> fmul (float_of_nat s') (fl (4 / 100))"
    unfolding fmul_def by (rule fl_mono)
  then show ?thesis unfolding source_bonus_def by (rule min.mono[OF order_refl])
qed

lemma evidence_bonus_mono: "e \<le> e' \<Longrightarrow> evidence_bonus e \<le> evidence_bonus e'"
proof -
  assume "e \<le> e'"
  then have "float_of_nat e \<le> float_of_nat e'" by (rule float_of_nat_mono)
  moreover have "0 \<le> fl (2 / 100)" by (rule fl_nonneg) simp
  ultimately have "float_of_nat e * fl (2 / 100) \<le> float_of_nat e' * fl (2 / 100)"
    by (rule mult_right_mono)
  then have "fmul (float_of_nat e) (fl (2 / 100)) \<le> fmul (float_of_nat e') (fl (2 / 100))"
    unfolding fmul_def by (rule fl_mono)
  then show ?thesis unfolding evidence_bonus_def by (rule min.mono[OF order_refl])
qed

lemma source_bonus_nonneg: "0 \<le> source_bonus s"
proof -
  have "0 \<le> float_of_nat s * fl (4 / 100)"
    by (intro mult_nonneg_nonneg float_of_nat_nonneg fl_nonneg) simp
  then have "0 \<le> fmul (float_of_nat s) (fl (4 / 100))" unfolding fmul_def by (rule fl_nonneg)
  moreover have "0 \<le> fl (2 / 10)" by (rule fl_nonneg) simp
  ultimately show ?thesis unfolding source_bonus_def by simp
qed

lemma evidence_bonus_nonneg: "0 \<le> evidence_bonus e"
proof -
  have "0 \<le> float_of_nat e * fl (2 / 100)"
    by (intro mult_nonneg_nonneg float_of_nat_nonneg fl_nonneg) simp
  then have "0 \<le> fmul (float_of_nat e) (fl (2 / 100))" unfolding fmul_def by (rule fl_nonneg)
  moreover have "0 \<le> fl (1 / 10)" by (rule fl_nonneg) simp
  ultimately show ?thesis unfolding evidence_bonus_def by simp
qed

lemma confidence_formula_mono:
  assumes "s \<le> s'" "e \<le> e'"
  shows "confidence_formula s e \<le> confidence_formula s' e'"
proof -
  have "base_confidence + source_bonus s \<le> base_confidence + source_bonus s'"
    using source_bonus_mono[OF assms(1)] by simp
  then have "fadd base_confidence (source_bonus s) \<le> fadd base_confidence (source_bonus s')"
    unfolding fadd_def by (rule fl_mono)
  then have "fadd base_confidence (source_bonus s) + evidence_bonus e
        \<le> fadd base_confidence (source_bonus s') + evidence_bonus e'"
    using evidence_bonus_mono[OF assms(2)] by (rule add_mono)
  then have "fadd (fadd base_confidence (source_bonus s)) (evidence_bonus e)
        \<le> fadd (fadd base_confidence (source_bonus s')) (evidence_bonus e')"
    unfolding fadd_def by (rule fl_mono)
  then show ?thesis unfolding confidence_formula_def by (rule min.mono[OF order_refl])
qed

lemma confidence_formula_lower: "base_confidence \<le> confidence_formula s e"
proof -
  have "base_confidence + 0 \<le> base_confidence + source_bonus s"
    using source_bonus_nonneg[of s] by simp
  then have "fl base_confidence \<le> fadd base_confidence (source_bonus s)"
    unfolding fadd_def by (intro fl_mono) simp
  then have "base_confidence \<le> fadd base_confidence (source_bonus s) + evidence_bonus e"
    using evidence_bonus_nonneg[of e] by (simp add: base_confidence_fix)
  then have "fl base_confidence \<le> fadd (fadd base_confidence (source_bonus s)) (evidence_bonus e)"
    unfolding fadd_def by (rule fl_mono)
  moreover have "base_confidence \<le> fl (95 / 100)"
    unfolding base_confidence_def c07 c095 by simp
  ultimately show ?thesis
    unfolding confidence_formula_def base_confidence_fix by (rule min.boundedI [rotated])
qed

lemma confidence_formula_upper: "confidence_formula s e \<le> fl (95 / 100)"
  unfolding confidence_formula_def by (rule min.cobounded1)

lemma confidence_formula_saturates:
  assumes "5 \<le> s" "5 \<le> e"
  shows "confidence_formula s e = fl (95 / 100)"
proof (rule antisym)
  show "confidence_formula s e \<le> fl (95 / 100)" by (rule confidence_formula_upper)
  have "confidence_formula 5 5 \<le> confidence_formula s e"
    by (rule confidence_formula_mono[OF assms])
  then show "fl (95 / 100) \<le> confidence_formula s e"
    by (simp only: confidence_formula_5_5)
qed

section \<open>Relevance, retrieval and query confidence\<close>

lemma max_distance_fix: "fl max_distance = max_distance"
  unfolding max_distance_def c12
  by (subst fl_eval_pos[where n = 0]) (simp_all add: round_even_def)

lemma max_distance_pos: "0 < max_distance"
  unfolding max_distance_def c12 by simp

lemma fl_nonpos: "x \<le> 0 \<Longrightarrow> fl x \<le> 0"
  using fl_mono[of x 0] by (simp add: fl_zero)

lemma relevance_score_nonneg: "0 \<le> relevance_score d"
  by (simp add: relevance_score_def)

lemma relevance_score_le_1:
  assumes "0 \<le> d"
  shows "relevance_score d \<le> 1"
proof -
  have "fl (max_distance - d) \<le> fl max_distance" using assms by (intro fl_mono) simp
  then have "fsub max_distance d \<le> max_distance" by (simp add: fsub_def max_distance_fix)
  then have "fsub max_distance d / max_distance \<le> 1" using max_distance_pos by simp
  then have "fl (fsub max_distance d / max_distance) \<le> fl 1" by (rule fl_mono)
  then show ?thesis by (simp add: relevance_score_def fdiv_def fl_1)
qed

lemma relevance_score_0: "relevance_score 0 = 1"
  using max_distance_pos by (simp add: relevance_score_def fdiv_def fsub_def max_distance_fix fl_1)

lemma relevance_score_far:
  assumes "max_distance \<le> d"
  shows "relevance_score d = 0"
proof -
  have "fl (max_distance - d) \<le> 0" using assms by (intro fl_nonpos) simp
  then have "fsub max_distance d / max_distance \<le> 0"
    using max_distance_pos by (simp add: fsub_def divide_le_0_iff)
  then have "fl (fsub max_distance d / max_distance) \<le> 0" by (rule fl_nonpos)
  then show ?thesis by (simp add: relevance_score_def fdiv_def)
qed

lemma relevance_score_low:
  assumes "1 \<le> d"
  shows "relevance_score d < fl (2 / 10)"
proof -
  have a: "fl (5404319552844595 / 2 ^ 52 - 1) = 900719925474099 / 2 ^ 52"
    by (subst fl_eval_neg[where n = 3]) (simp_all add: round_even_def)
  have b: "fl (900719925474099 / 2 ^ 52 / (5404319552844595 / 2 ^ 52)) = 1501199875790165 / 2 ^ 53"
    by (subst fl_eval_neg[where n = 3]) (simp_all add: round_even_def)
  have "fl (max_distance - d) \<le> fl (max_distance - 1)" using assms by (intro fl_mono) simp
  then have "fsub max_distance d \<le> 900719925474099 / 2 ^ 52"
    unfolding fsub_def max_distance_def c12 a .
  then have "fsub max_distance d / max_distance \<le> 900719925474099 / 2 ^ 52 / max_distance"
    using max_distance_pos by (simp only: divide_right_mono less_imp_le)
  then have "fl (fsub max_distance d / max_distance) \<le> fl (900719925474099 / 2 ^ 52 / max_distance)"
    by (rule fl_mono)
  then have "fdiv (fsub max_distance d) max_distance \<le> 1501199875790165 / 2 ^ 53"
    unfolding fdiv_def max_distance_def c12 b .
  moreover have "(1501199875790165 / 2 ^ 53 :: real) < fl (2 / 10)" unfolding c02 by simp
  moreover have "(0::real) < fl (2 / 10)" unfolding c02 by simp
  ultimately show ?thesis unfolding relevance_score_def by (simp only: max_less_iff_conj) simp
qed

lemma query_confidence_range:
  assumes "0 \<le> d" "fl (2 / 10) < relevance_score d"
  shows "0 \<le> query_confidence d \<and> query_confidence d \<le> 1"
proof -
  have "d < 1" using relevance_score_low[of d] assms(2) by (cases "1 \<le> d") simp_all
  then have "0 \<le> fl (1 - d)" by (intro fl_nonneg) simp
  moreover have "fl (1 - d) \<le> fl 1" using assms(1) by (intro fl_mono) simp
  ultimately show ?thesis by (simp add: query_confidence_def fsub_def fl_1)
qed

text \<open>The float 1.2 and the number 1.2, and the distance of the relevance from the exact transform.\<close>

lemma max_distance_le: "max_distance \<le> 12 / 10"
  unfolding max_distance_def c12 by simp

lemma max_distance_near: "12 / 10 - max_distance \<le> 12 / 10 / 2 ^ 53"
  using fl_error[of "12 / 10"] unfolding max_distance_def by linarith

lemma relevance_score_close_far:
  assumes "max_distance \<le> d"
  shows "\<bar>relevance_score d - exact_relevance d\<bar> \<le> 1 / 2 ^ 53"
proof -
  define c :: real where "c = 12 / 10"
  have c: "0 < c" by (simp add: c_def)
  have near: "c - max_distance \<le> c / 2 ^ 53" unfolding c_def by (rule max_distance_near)
  have "c - d \<le> c / 2 ^ 53" using near assms by linarith
  then have "(c - d) / c \<le> c / 2 ^ 53 / c" using c by (intro divide_right_mono) simp_all
  then have "(c - d) / c \<le> 1 / 2 ^ 53" using c by simp
  moreover have "(0::real) \<le> 1 / 2 ^ 53" by simp
  ultimately have "max 0 ((c - d) / c) \<le> 1 / 2 ^ 53" by (intro max.boundedI)
  moreover have "0 \<le> max 0 ((c - d) / c)" by simp
  ultimately show ?thesis
    unfolding relevance_score_far[OF assms] exact_relevance_def c_def [symmetric] by linarith
qed

lemma relevance_score_close_near:
  assumes "0 \<le> d" "d < max_distance"
  shows "\<bar>relevance_score d - exact_relevance d\<bar> \<le> 3 / 2 ^ 53"
proof -
  define c :: real where "c = 12 / 10"
  define M where "M = max_distance"
  define t where "t = M - d"
  define a where "a = fl t"
  define p where "p = a / M"
  define q where "q = fl p"
  have c: "0 < c" by (simp add: c_def)
  have M: "0 < M" unfolding M_def by (rule max_distance_pos)
  have Mc: "M \<le> c" unfolding M_def c_def by (rule max_distance_le)
  have near: "c - M \<le> c / 2 ^ 53" unfolding c_def M_def by (rule max_distance_near)
  have t: "0 < t" "t \<le> M" using assms by (simp_all add: t_def M_def)
  have a: "0 < a" unfolding a_def using t(1) by (rule fl_pos)
  have "fl t \<le> fl M" using t(2) by (rule fl_mono)
  then have aM: "a \<le> M" unfolding a_def M_def max_distance_fix .
  have p: "0 < p" "p \<le> 1" using a aM M by (simp_all add: p_def)
  have q: "0 < q" unfolding q_def using p(1) by (rule fl_pos)
  have r: "relevance_score d = q"
    using q unfolding relevance_score_def fdiv_def fsub_def q_def p_def a_def t_def M_def
    by simp
  have "0 < c - d" using assms(2) Mc unfolding M_def by linarith
  then have "0 < (c - d) / c" using c by simp
  then have x: "exact_relevance d = (c - d) / c"
    unfolding exact_relevance_def c_def [symmetric] by simp
  have "\<bar>q - p\<bar> \<le> p / 2 ^ 53" unfolding q_def by (rule fl_pos_error[OF p(1)])
  also have "\<dots> \<le> 1 / 2 ^ 53" using p(2) by (intro divide_right_mono) simp_all
  finally have h1: "\<bar>q - p\<bar> \<le> 1 / 2 ^ 53" .
  have "\<bar>a - t\<bar> \<le> t / 2 ^ 53" unfolding a_def by (rule fl_pos_error[OF t(1)])
  also have "\<dots> \<le> M / 2 ^ 53" using t(2) by (intro divide_right_mono) simp_all
  finally have "\<bar>a - t\<bar> / M \<le> M / 2 ^ 53 / M" using M by (intro divide_right_mono) simp_all
  moreover have "\<bar>a - t\<bar> / M = \<bar>p - t / M\<bar>"
  proof -
    have "p - t / M = (a - t) / M" by (simp add: p_def diff_divide_distrib)
    then show ?thesis using M by (simp add: abs_divide)
  qed
  ultimately have h2: "\<bar>p - t / M\<bar> \<le> 1 / 2 ^ 53" using M by simp
  have e: "t / M - (c - d) / c = - (d * (c - M) / (c * M))"
    using M c by (simp add: t_def field_simps)
  have "d * (c - M) \<le> M * (c - M)" using assms(2) Mc unfolding M_def [symmetric]
    by (intro mult_right_mono) simp_all
  then have "d * (c - M) / (c * M) \<le> M * (c - M) / (c * M)"
    using M c by (intro divide_right_mono) simp_all
  also have "M * (c - M) / (c * M) = (c - M) / c" using M by simp
  also have "(c - M) / c \<le> c / 2 ^ 53 / c" using near c by (intro divide_right_mono) simp_all
  also have "c / 2 ^ 53 / c = 1 / 2 ^ 53" using c by simp
  finally have u: "d * (c - M) / (c * M) \<le> 1 / 2 ^ 53" .
  have "0 \<le> d * (c - M) / (c * M)" using assms(1) Mc M c by simp
  with u e have h3: "\<bar>t / M - (c - d) / c\<bar> \<le> 1 / 2 ^ 53" by simp
  from h1 h2 h3 have "\<bar>q - (c - d) / c\<bar> \<le> 3 / 2 ^ 53" by linarith
  then show ?thesis unfolding r x .
qed

lemma relevance_score_close:
  assumes "0 \<le> d"
  shows "\<bar>relevance_score d - exact_relevance d\<bar> \<le> 3 / 2 ^ 53"
proof (cases "d < max_distance")
  case True
  with assms show ?thesis by (rule relevance_score_close_near)
next
  case False
  then have "\<bar>relevance_score d - exact_relevance d\<bar> \<le> 1 / 2 ^ 53"
    by (intro relevance_score_close_far) simp
  then show ?thesis by simp
qed



text \<open>The failures of the retrieval, and a fact about sorted lists.\<close>

lemma retrieve_unavailable:
  assumes "embed_question question = Inl err \<or> embed_question question = Inr []"
  shows "retrieve embed_question index_query question top_k min_relevance = Inl EmbeddingUnavailable"
  using assms by (auto simp: retrieve_def)

lemma retrieve_blank_question:
  "retrieve (\<lambda>q. fst (get_embedding post q)) index_query [] top_k min_relevance =
   Inl EmbeddingUnavailable"
  by (simp add: retrieve_def get_embedding_def reraise_def)

lemma sorted_take_drop:
  assumes "sorted (map f xs)" "x \<in> set (take k xs)" "y \<in> set (drop k xs)"
  shows "f x \<le> f y"
proof -
  have "sorted (map f (take k xs @ drop k xs))" using assms(1) by simp
  then have "sorted (map f (take k xs) @ map f (drop k xs))" by (simp only: map_append)
  then have "\<forall>a\<in>set (map f (take k xs)). \<forall>b\<in>set (map f (drop k xs)). a \<le> b"
    by (simp only: sorted_append) blast
  with assms(2,3) show ?thesis by simp
qed

section \<open>The confidence formula for counts up to 5, and its distance from the exact formula\<close>













































































































lemma c_0_8765_float: "c_0_8765 = fl (8765 / 10000)"
  unfolding c_0_8765_def by (subst fl_eval_neg[where n = 1]) (simp_all add: round_even_def)

lemma py_round_example: "py_round c_0_8765 2 = fl (88 / 100)"
  unfolding py_round_def c_0_8765_def by (simp add: round_even_def)

section \<open>The example distances\<close>

lemma d_0_1_float: "d_0_1 = fl (1 / 10)" by (simp only: d_0_1_def c01)
lemma d_0_3_float: "d_0_3 = fl (3 / 10)"
  unfolding d_0_3_def by (subst fl_eval_neg[where n = 2]) (simp_all add: round_even_def)
lemma d_1_1_float: "d_1_1 = fl (11 / 10)"
  unfolding d_1_1_def by (subst fl_eval_pos[where n = 0]) (simp_all add: round_even_def)

lemma relevance_score_0_1: "relevance_score d_0_1 = 8256599316845909 / 2 ^ 53"
proof -
  have a: "fl (5404319552844595 / 2 ^ 52 - 3602879701896397 / 2 ^ 55) = 4953959590107545 / 2 ^ 52"
    by (subst fl_eval_pos[where n = 0]) (simp_all add: round_even_def)
  have b: "fl (4953959590107545 / 2 ^ 52 / (5404319552844595 / 2 ^ 52)) = 8256599316845909 / 2 ^ 53"
    by (subst fl_eval_neg[where n = 1]) (simp_all add: round_even_def)
  show ?thesis
    unfolding relevance_score_def fdiv_def fsub_def max_distance_def c12 d_0_1_def a b by simp
qed

lemma relevance_score_0_3: "relevance_score d_0_3 = 3 / 4"
proof -
  have a: "fl (5404319552844595 / 2 ^ 52 - 5404319552844595 / 2 ^ 54) = 2026619832316723 / 2 ^ 51"
    by (subst fl_eval_neg[where n = 1]) (simp_all add: round_even_def)
  have b: "fl (2026619832316723 / 2 ^ 51 / (5404319552844595 / 2 ^ 52)) = 3 / 4"
    by (subst fl_eval_neg[where n = 1]) (simp_all add: round_even_def)
  show ?thesis
    unfolding relevance_score_def fdiv_def fsub_def max_distance_def c12 d_0_3_def a b by simp
qed

lemma relevance_score_1_1: "relevance_score d_1_1 = 3002399751580327 / 2 ^ 55"
proof -
  have a: "fl (5404319552844595 / 2 ^ 52 - 2476979795053773 / 2 ^ 51) = 450359962737049 / 2 ^ 52"
    by (subst fl_eval_neg[where n = 4]) (simp_all add: round_even_def)
  have b: "fl (450359962737049 / 2 ^ 52 / (5404319552844595 / 2 ^ 52)) = 3002399751580327 / 2 ^ 55"
    by (subst fl_eval_neg[where n = 4]) (simp_all add: round_even_def)
  show ?thesis
    unfolding relevance_score_def fdiv_def fsub_def max_distance_def c12 d_1_1_def a b by simp
qed

lemma d_0_6_float: "d_0_6 = fl (6 / 10)"
  unfolding d_0_6_def by (subst fl_eval_neg[where n = 1]) (simp_all add: round_even_def)

lemma relevance_score_0_6: "relevance_score d_0_6 = 1 / 2"
proof -
  have a: "fl (5404319552844595 / 2 ^ 52 - 5404319552844595 / 2 ^ 53) = 5404319552844595 / 2 ^ 53"
    by (subst fl_eval_neg[where n = 1]) (simp_all add: round_even_def)
  have b: "fl (5404319552844595 / 2 ^ 53 / (5404319552844595 / 2 ^ 52)) = 1 / 2"
    by (subst fl_eval_neg[where n = 1]) (simp_all add: round_even_def)
  show ?thesis
    unfolding relevance_score_def fdiv_def fsub_def max_distance_def c12 d_0_6_def a b by simp
qed

lemma exact_relevance_0_6: "exact_relevance (6 / 10) = 1 / 2"
  by (simp add: exact_relevance_def)

lemma retrieve_example:
  "retrieve (\<lambda>q. Inr [1]) (\<lambda>v k. [(''c3'', d_0_1), (''c1'', d_0_3), (''c2'', d_1_1)])
     (cp ''What are the inclusion criteria?'') 6 (fl (2 / 10)) =
   Inr [\<lparr>cand_chunk = ''c3'', distance = d_0_1, relevance = 8256599316845909 / 2 ^ 53\<rparr>,
        \<lparr>cand_chunk = ''c1'', distance = d_0_3, relevance = 3 / 4\<rparr>]"
  unfolding retrieve_def c02
  by (simp add: relevance_score_0_1 relevance_score_0_3 relevance_score_1_1)

lemma retrieve_example_top_1:
  "retrieve (\<lambda>q. Inr [1]) (\<lambda>v k. [(''c1'', d_0_3), (''c2'', d_1_1), (''c3'', d_0_1)])
     (cp ''What are the inclusion criteria?'') 1 (fl (2 / 10)) =
   Inr [\<lparr>cand_chunk = ''c3'', distance = d_0_1, relevance = 8256599316845909 / 2 ^ 53\<rparr>]"
  unfolding retrieve_def c02
  by (simp add: relevance_score_0_1 relevance_score_0_3 relevance_score_1_1)

section \<open>The claims about the confidence scores and the retrieval\<close>



text \<open>
  Claim C2. The relevance is \<open>max(0, (1.2 - d) / 1.2)\<close> in float arithmetic: the value of
  the source expression, with the literal and each operation rounded. For every distance
  \<open>d \<ge> 0\<close> it differs from the exact \<open>max(0, (1.2 - d) / 1.2)\<close> by at most \<open>3 * 2^-53\<close>
  and lies in \<open>[0, 1]\<close>; it is 1 at distance 0, it is 0 at the float 1.2 and from there
  on, so from the number 1.2 on, and it is 0.5 at the float 0.6.
\<close>

theorem relevance_score_bounds:
  "relevance_score d = max 0 (fl (fl (fl (12 / 10) - d) / fl (12 / 10))) \<and>
   (0 \<le> d \<longrightarrow> \<bar>relevance_score d - exact_relevance d\<bar> \<le> 3 / 2 ^ 53) \<and>
   (0 \<le> d \<longrightarrow> 0 \<le> relevance_score d \<and> relevance_score d \<le> 1) \<and>
   relevance_score 0 = 1 \<and>
   relevance_score max_distance = 0 \<and>
   (max_distance \<le> d \<longrightarrow> relevance_score d = 0) \<and>
   max_distance \<le> 12 / 10 \<and>
   (12 / 10 \<le> d \<longrightarrow> relevance_score d = 0) \<and>
   relevance_score d_0_6 = 1 / 2"
proof -
  have 1: "relevance_score d = max 0 (fl (fl (fl (12 / 10) - d) / fl (12 / 10)))"
    unfolding relevance_score_def fdiv_def fsub_def max_distance_def ..
  have 2: "relevance_score d = 0" if "12 / 10 \<le> d"
    using that max_distance_le by (intro relevance_score_far) linarith
  from 1 2 relevance_score_close [of d] relevance_score_nonneg [of d] relevance_score_le_1 [of d]
    relevance_score_0 relevance_score_far [of d] relevance_score_far [of max_distance]
    max_distance_le relevance_score_0_6
  show ?thesis by blast
qed

theorem relevance_score_bounds_witness:
  "0 \<le> d_0_6 \<and> relevance_score d_0_6 = 1 / 2 \<and>
   \<bar>relevance_score d_0_6 - exact_relevance d_0_6\<bar> \<le> 3 / 2 ^ 53 \<and>
   relevance_score d_0_6 \<le> 1 \<and>
   max_distance \<le> 2 \<and> (12 / 10 :: real) \<le> 2 \<and> relevance_score 2 = 0"
proof -
  have a: "0 \<le> d_0_6" by (simp add: d_0_6_def)
  have b: "max_distance \<le> 2" unfolding max_distance_def c12 by simp
  have c: "(12 / 10 :: real) \<le> 2" by simp
  from relevance_score_bounds [of d_0_6] relevance_score_bounds [of 2] a b c
  show ?thesis by blast
qed


text \<open>
  Claim C6. When the gateway returns a non-empty query embedding, \<open>retrieve\<close> returns a
  list, not an error. Every returned candidate has a relevance above \<open>min_relevance\<close>
  (those at or below it are dropped) and is a result of the index with the relevance of
  its distance. There are at most \<open>top_k\<close> of them: as many as survive the filter, or
  \<open>top_k\<close> if more survive. They are sorted by relevance, descending. A surviving result
  that is not returned is left out only because \<open>top_k\<close> candidates of at least its
  relevance are returned. The list is empty when no candidate passes the filter.
\<close>

theorem retrieve_contract:
  fixes index_query :: "real list \<Rightarrow> nat \<Rightarrow> ('c \<times> real) list"
  assumes "embed_question question = Inr v" and "v \<noteq> []"
  shows "\<exists>cands. retrieve embed_question index_query question top_k min_relevance = Inr cands \<and>
           (\<forall>c\<in>set cands. min_relevance < relevance c) \<and>
           (\<forall>c\<in>set cands. relevance c = relevance_score (distance c) \<and>
                            (cand_chunk c, distance c) \<in> set (index_query v top_k)) \<and>
           length cands \<le> top_k \<and>
           length cands =
             min top_k (length (filter (\<lambda>r. min_relevance < relevance_score (snd r))
                                  (index_query v top_k))) \<and>
           sorted_wrt (\<lambda>a b. relevance b \<le> relevance a) cands \<and>
           (\<forall>r\<in>set (index_query v top_k). min_relevance < relevance_score (snd r) \<longrightarrow>
              \<lparr>cand_chunk = fst r, distance = snd r, relevance = relevance_score (snd r)\<rparr>
                \<in> set cands \<or>
              length cands = top_k \<and> (\<forall>c\<in>set cands. relevance_score (snd r) \<le> relevance c)) \<and>
           ((\<forall>r\<in>set (index_query v top_k). relevance_score (snd r) \<le> min_relevance) \<longrightarrow>
              cands = [])"
proof -
  define mk :: "'c \<times> real \<Rightarrow> 'c candidate" where
    "mk = (\<lambda>(ch, d). \<lparr>cand_chunk = ch, distance = d, relevance = relevance_score d\<rparr>)"
  define raw where "raw = map mk (index_query v top_k)"
  define kept where "kept = filter (\<lambda>c. \<not> relevance c \<le> min_relevance) raw"
  define ranked where "ranked = sort_key (\<lambda>c. - relevance c) kept"
  define cands where "cands = take top_k ranked"
  have mk: "mk r = \<lparr>cand_chunk = fst r, distance = snd r, relevance = relevance_score (snd r)\<rparr>"
    for r by (simp add: mk_def split_beta)
  have r: "retrieve embed_question index_query question top_k min_relevance = Inr cands"
    by (simp add: retrieve_def assms cands_def ranked_def kept_def raw_def mk_def)
  have kept: "kept = map mk (filter (\<lambda>r. min_relevance < relevance_score (snd r))
                                    (index_query v top_k))"
    by (simp add: kept_def raw_def filter_map o_def mk not_le)
  have sub: "set cands \<subseteq> set kept"
    unfolding cands_def ranked_def using set_take_subset[of top_k "sort_key (\<lambda>c. - relevance c) kept"]
    by simp
  have 1: "\<forall>c\<in>set cands. min_relevance < relevance c"
    using sub by (auto simp: kept_def)
  have 2: "\<forall>c\<in>set cands. relevance c = relevance_score (distance c) \<and>
                            (cand_chunk c, distance c) \<in> set (index_query v top_k)"
    using sub by (auto simp: kept mk)
  have 3: "length cands \<le> top_k" by (simp add: cands_def)
  have 4: "length cands = min top_k (length (filter (\<lambda>r. min_relevance < relevance_score (snd r))
                                  (index_query v top_k)))"
    by (simp add: cands_def ranked_def kept min.commute)
  have s: "sorted (map (\<lambda>c. - relevance c) ranked)"
    unfolding ranked_def by (rule sorted_sort_key)
  then have "sorted (take top_k (map (\<lambda>c. - relevance c) ranked))"
    by (rule sorted_wrt_take)
  then have "sorted (map (\<lambda>c. - relevance c) cands)" by (simp add: cands_def take_map)
  then have 5: "sorted_wrt (\<lambda>a b. relevance b \<le> relevance a) cands"
    by (simp add: sorted_map)
  have 6: "mk r \<in> set cands \<or>
           length cands = top_k \<and> (\<forall>c\<in>set cands. relevance_score (snd r) \<le> relevance c)"
    if "r \<in> set (index_query v top_k)" "min_relevance < relevance_score (snd r)" for r
  proof (cases "mk r \<in> set cands")
    case True
    then show ?thesis ..
  next
    case False
    from that have "mk r \<in> set kept" unfolding kept by simp
    then have "mk r \<in> set (take top_k ranked @ drop top_k ranked)"
      by (simp add: ranked_def)
    with False have d: "mk r \<in> set (drop top_k ranked)"
      unfolding cands_def by (simp only: set_append Un_iff) simp
    then have "drop top_k ranked \<noteq> []" by auto
    then have "top_k < length ranked" by simp
    then have l: "length cands = top_k" by (simp add: cands_def)
    have "relevance_score (snd r) \<le> relevance c" if "c \<in> set cands" for c
    proof -
      from that have "c \<in> set (take top_k ranked)" by (simp only: cands_def)
      from sorted_take_drop[OF s this d] show ?thesis by (simp add: mk)
    qed
    with l show ?thesis by blast
  qed
  have 7: "cands = []" if "\<forall>r\<in>set (index_query v top_k). relevance_score (snd r) \<le> min_relevance"
  proof -
    from that have "kept = []"
      by (auto simp: kept filter_empty_conv)
    then show ?thesis by (simp add: cands_def ranked_def)
  qed
  from r 1 2 3 4 5 6 7 show ?thesis unfolding mk by blast
qed

theorem retrieve_contract_witness:
  "retrieve (\<lambda>q. Inr [1]) (\<lambda>v k. [(''c3'', d_0_1), (''c1'', d_0_3), (''c2'', d_1_1)])
     (cp ''What are the inclusion criteria?'') 6 (fl (2 / 10)) =
   Inr [\<lparr>cand_chunk = ''c3'', distance = d_0_1, relevance = 8256599316845909 / 2 ^ 53\<rparr>,
        \<lparr>cand_chunk = ''c1'', distance = d_0_3, relevance = 3 / 4\<rparr>] \<and>
   fl (2 / 10) < 8256599316845909 / 2 ^ 53 \<and>
   fl (2 / 10) < 3 / 4 \<and>
   relevance_score d_0_1 = 8256599316845909 / 2 ^ 53 \<and>
   relevance_score d_0_3 = 3 / 4 \<and>
   length [\<lparr>cand_chunk = ''c3'', distance = d_0_1, relevance = 8256599316845909 / 2 ^ 53\<rparr>,
           \<lparr>cand_chunk = ''c1'', distance = d_0_3, relevance = 3 / 4\<rparr>] \<le> 6 \<and>
   (3 / 4 :: real) \<le> 8256599316845909 / 2 ^ 53"
proof -
  let ?A = "\<lparr>cand_chunk = ''c3'', distance = d_0_1, relevance = 8256599316845909 / 2 ^ 53\<rparr>"
  let ?B = "\<lparr>cand_chunk = ''c1'', distance = d_0_3, relevance = 3 / 4\<rparr>"
  have h: "(\<lambda>q::py_str. Inr [1::real] :: py_exception + real list)
             (cp ''What are the inclusion criteria?'') = Inr [1]" by simp
  have n: "[1::real] \<noteq> []" by simp
  from retrieve_contract [where embed_question = "\<lambda>q. Inr [1]"
      and question = "cp ''What are the inclusion criteria?''" and v = "[1]"
      and index_query = "\<lambda>v k. [(''c3'', d_0_1), (''c1'', d_0_3), (''c2'', d_1_1)]"
      and top_k = 6 and min_relevance = "fl (2 / 10)", OF h n]
  obtain cands where c:
    "retrieve (\<lambda>q. Inr [1]) (\<lambda>v k. [(''c3'', d_0_1), (''c1'', d_0_3), (''c2'', d_1_1)])
        (cp ''What are the inclusion criteria?'') 6 (fl (2 / 10)) = Inr cands"
    "\<forall>c\<in>set cands. fl (2 / 10) < relevance c"
    "\<forall>c\<in>set cands. relevance c = relevance_score (distance c) \<and>
        (cand_chunk c, distance c) \<in> set [(''c3'', d_0_1), (''c1'', d_0_3), (''c2'', d_1_1)]"
    "length cands \<le> 6"
    "sorted_wrt (\<lambda>a b. relevance b \<le> relevance a) cands"
    by blast
  from c(1) have e: "cands = [?A, ?B]"
    by (simp only: retrieve_example sum.inject)
  from c(2) have 1: "fl (2 / 10) < relevance ?A" "fl (2 / 10) < relevance ?B"
    unfolding e by simp_all
  from c(3) have 2: "relevance ?A = relevance_score (distance ?A)"
    "relevance ?B = relevance_score (distance ?B)"
    unfolding e by simp_all
  from c(4) have 3: "length [?A, ?B] \<le> 6" unfolding e .
  from c(5) have 4: "relevance ?B \<le> relevance ?A" unfolding e by simp
  from 1 2 3 4 retrieve_example show ?thesis by simp
qed

end
